theory Spec2Isabelle
  imports Complex_Main "HOL-Library.AList"
begin

section \<open>Resilience layer: src/util/retryUtils.js\<close>

subsection \<open>Errors and operations\<close>

text \<open>
  A JavaScript error as the retry code reads it: its message, and the HTTP status of
  \<open>error.response\<close> when the error carries a response (\<open>None\<close> for a network failure).
\<close>

datatype js_error = JsError (message: string) (response: "int option")

text \<open>
  An operation is an asynchronous function whose only effect is on the outside world
  \<open>'w\<close>: one awaited invocation takes the world and gives the outcome (\<open>Inl\<close> a thrown
  error, \<open>Inr\<close> the resolved value) and the world it leaves behind.
\<close>

type_synonym ('a, 'w) operation = "'w \<Rightarrow> (js_error + 'a) \<times> 'w"

subsection \<open>Backoff\<close>

text \<open>JavaScript numbers are read as reals; \<open>r\<close> is the draw of \<open>Math.random()\<close>.\<close>

definition calculateDelay :: "nat \<Rightarrow> real \<Rightarrow> real \<Rightarrow> real \<Rightarrow> real" where
  "calculateDelay attempt baseDelay backoffFactor maxDelay =
     (let delay = baseDelay * backoffFactor ^ attempt in min delay maxDelay)"

definition addJitter :: "real \<Rightarrow> real \<Rightarrow> real \<Rightarrow> real" where
  "addJitter delay jitterFactor r = (let jitter = delay * jitterFactor * r in delay + jitter)"

subsection \<open>retryWithBackoff\<close>

record retry_config =
  maxAttempts :: int
  baseDelay :: real
  maxDelay :: real
  backoffFactor :: real
  retryCondition :: "js_error \<Rightarrow> bool"

definition DEFAULT_RETRY_CONFIG :: retry_config where
  "DEFAULT_RETRY_CONFIG =
     \<lparr> maxAttempts = 3, baseDelay = 1000, maxDelay = 10000, backoffFactor = 2,
       retryCondition = (\<lambda>error.
         case response error of
           None \<Rightarrow> True
         | Some status \<Rightarrow> status \<ge> 500 \<or> status = 429) \<rparr>"

text \<open>
  The state of one call of \<open>retryWithBackoff\<close>: the world the operation acts on and the
  local \<open>lastError\<close> (\<open>None\<close> while it is still \<open>undefined\<close>), with two observation logs:
  \<open>trace\<close>, the outcome of every invocation of the operation in order, and \<open>slept\<close>, the
  argument of every \<open>sleep\<close>.
\<close>

record ('a, 'w) retry_state =
  world :: 'w
  lastError :: "js_error option"
  trace :: "(js_error + 'a) list"
  slept :: "real list"

text \<open>
  The \<open>for\<close> loop from \<open>attempt\<close> on. \<open>rnd i\<close> is the draw of \<open>Math.random()\<close> after
  the failure of attempt \<open>i\<close>. Leaving the loop reaches \<open>throw lastError\<close>, which throws
  \<open>undefined\<close> (\<open>Inl None\<close>) when no attempt was made.
\<close>

function retry_loop ::
  "retry_config \<Rightarrow> ('a, 'w) operation \<Rightarrow> (nat \<Rightarrow> real) \<Rightarrow> nat \<Rightarrow> ('a, 'w) retry_state
     \<Rightarrow> (js_error option + 'a) \<times> ('a, 'w) retry_state" where
  "retry_loop cfg operation rnd attempt s =
     (if int attempt < maxAttempts cfg then
        (case operation (world s) of
           (Inr result, w) \<Rightarrow>
             (Inr result, s\<lparr>world := w, trace := trace s @ [Inr result]\<rparr>)
         | (Inl error, w) \<Rightarrow>
             (let s1 = s\<lparr>world := w, lastError := Some error, trace := trace s @ [Inl error]\<rparr> in
              if int attempt = maxAttempts cfg - 1 then (Inl (lastError s1), s1)
              else if \<not> retryCondition cfg error then (Inl (lastError s1), s1)
              else
                (let delay = calculateDelay attempt (baseDelay cfg) (backoffFactor cfg) (maxDelay cfg);
                     delayWithJitter = addJitter delay 0.1 (rnd attempt)
                 in retry_loop cfg operation rnd (attempt + 1)
                      (s1\<lparr>slept := slept s1 @ [delayWithJitter]\<rparr>))))
      else (Inl (lastError s), s))"
  by pat_completeness auto
termination
  by (relation "measure (\<lambda>(cfg, operation, rnd, attempt, s). nat (maxAttempts cfg - int attempt))")
     auto

declare retry_loop.simps [simp del]

definition retryWithBackoff ::
  "retry_config \<Rightarrow> ('a, 'w) operation \<Rightarrow> (nat \<Rightarrow> real) \<Rightarrow> 'w
     \<Rightarrow> (js_error option + 'a) \<times> ('a, 'w) retry_state" where
  "retryWithBackoff cfg operation rnd w =
     retry_loop cfg operation rnd 0 \<lparr>world = w, lastError = None, trace = [], slept = []\<rparr>"

text \<open>
  \<open>run_attempts operation n w\<close>: the outcomes of \<open>n\<close> invocations made one after the other,
  each starting in the world the previous one left, and the world after the last.
\<close>

fun run_attempts :: "('a, 'w) operation \<Rightarrow> nat \<Rightarrow> 'w \<Rightarrow> (js_error + 'a) list \<times> 'w" where
  "run_attempts operation 0 w = ([], w)"
| "run_attempts operation (Suc n) w =
     (case operation w of (r, w1) \<Rightarrow>
        (case run_attempts operation n w1 of (rs, w2) \<Rightarrow> (r # rs, w2)))"

text \<open>
  What holds on entry to iteration \<open>attempt\<close>: the trace has one outcome per attempt made,
  they are the outcomes of running the operation that many times in a row from the
  initial world, and all of them are failures.
\<close>

definition retry_inv :: "('a, 'w) operation \<Rightarrow> 'w \<Rightarrow> nat \<Rightarrow> ('a, 'w) retry_state \<Rightarrow> bool" where
  "retry_inv operation w0 attempt s \<longleftrightarrow>
     length (trace s) = attempt \<and> run_attempts operation attempt w0 = (trace s, world s)
     \<and> (\<forall>r \<in> set (trace s). \<exists>e. r = Inl e)"

subsection \<open>CircuitBreaker\<close>

datatype breaker_state = CLOSED | OPEN | HALF_OPEN

record CircuitBreaker =
  failureThreshold :: int
  resetTimeout :: int
  monitoringPeriod :: int
  state :: breaker_state
  failureCount :: int
  lastFailureTime :: "int option"
  successCount :: int

text \<open>\<open>config.x || d\<close>: the default replaces a missing option and the falsy number 0.\<close>

definition or_default :: "int option \<Rightarrow> int \<Rightarrow> int" where
  "or_default v d = (case v of None \<Rightarrow> d | Some n \<Rightarrow> if n = 0 then d else n)"

definition CircuitBreaker_new :: "int option \<Rightarrow> int option \<Rightarrow> int option \<Rightarrow> CircuitBreaker" where
  "CircuitBreaker_new cfgFailureThreshold cfgResetTimeout cfgMonitoringPeriod =
     \<lparr> failureThreshold = or_default cfgFailureThreshold 5,
       resetTimeout = or_default cfgResetTimeout 60000,
       monitoringPeriod = or_default cfgMonitoringPeriod 10000,
       state = CLOSED, failureCount = 0, lastFailureTime = None, successCount = 0 \<rparr>"

definition onSuccess :: "CircuitBreaker \<Rightarrow> CircuitBreaker" where
  "onSuccess b =
     (let b1 = b\<lparr>failureCount := 0\<rparr> in
      if state b1 = HALF_OPEN then
        (let b2 = b1\<lparr>successCount := successCount b1 + 1\<rparr> in
         if successCount b2 \<ge> 3 then b2\<lparr>state := CLOSED\<rparr> else b2)
      else b1)"

definition onFailure :: "int \<Rightarrow> CircuitBreaker \<Rightarrow> CircuitBreaker" where
  "onFailure now b =
     (let b1 = b\<lparr>failureCount := failureCount b + 1, lastFailureTime := Some now\<rparr> in
      if failureCount b1 \<ge> failureThreshold b1 then b1\<lparr>state := OPEN\<rparr> else b1)"

datatype breaker_error = BreakerOpen | OperationError js_error

text \<open>
  \<open>execute\<close>, called at time \<open>t0\<close> with an operation that settles at time \<open>t1\<close> with
  \<open>outcome\<close>; the outcome is looked at only where the source invokes the operation.
  A \<open>null\<close> \<open>lastFailureTime\<close> subtracts as 0.
\<close>

definition execute ::
  "int \<Rightarrow> int \<Rightarrow> (js_error + 'a) \<Rightarrow> CircuitBreaker \<Rightarrow> (breaker_error + 'a) \<times> CircuitBreaker" where
  "execute t0 t1 outcome b =
     (if state b = OPEN \<and> \<not> (t0 - (case lastFailureTime b of None \<Rightarrow> 0 | Some t \<Rightarrow> t) > resetTimeout b)
      then (Inl BreakerOpen, b)
      else
        (let b1 = (if state b = OPEN then b\<lparr>state := HALF_OPEN, successCount := 0\<rparr> else b) in
         case outcome of
           Inr result \<Rightarrow> (Inr result, onSuccess b1)
         | Inl error \<Rightarrow> (Inl (OperationError error), onFailure t1 b1)))"

text \<open>
  \<open>execute\<close> is asynchronous: it runs up to the \<open>await\<close>, and handles the outcome when the
  operation has settled. \<open>admit\<close> is the part before the \<open>await\<close>: it throws the
  breaker-open error, or lets the operation start in the state it returns. The part after
  the \<open>await\<close> is \<open>onSuccess\<close> or \<open>onFailure\<close>, applied to the breaker as it is then.
\<close>

definition admit :: "int \<Rightarrow> CircuitBreaker \<Rightarrow> breaker_error + CircuitBreaker" where
  "admit t0 b =
     (if state b = OPEN then
        (if t0 - (case lastFailureTime b of None \<Rightarrow> 0 | Some t \<Rightarrow> t) > resetTimeout b
         then Inr (b\<lparr>state := HALF_OPEN, successCount := 0\<rparr>)
         else Inl BreakerOpen)
      else Inr b)"

text \<open>
  The breaker states a program can reach, with the number of operations in flight: a
  fresh breaker with none; a call admitted at any time starts one more; an operation in
  flight settles, at any later moment and in whatever state the other calls have left,
  with a success or with a failure. Calls on the one breaker may overlap in any way; a
  rejected call changes nothing.
\<close>

inductive in_flight :: "CircuitBreaker \<Rightarrow> nat \<Rightarrow> bool" where
  fresh: "in_flight (CircuitBreaker_new ft rt mp) 0"
| admitted: "in_flight b n \<Longrightarrow> admit t0 b = Inr b1 \<Longrightarrow> in_flight b1 (Suc n)"
| succeeded: "in_flight b (Suc n) \<Longrightarrow> in_flight (onSuccess b) n"
| failed: "in_flight b (Suc n) \<Longrightarrow> in_flight (onFailure t1 b) n"

definition reachable :: "CircuitBreaker \<Rightarrow> bool" where
  "reachable b \<longleftrightarrow> (\<exists>n. in_flight b n)"

text \<open>A run of calls of \<open>execute\<close>, each completed before the next begins.\<close>

definition run_calls ::
  "(int \<times> int \<times> (js_error + unit)) list \<Rightarrow> CircuitBreaker \<Rightarrow> CircuitBreaker" where
  "run_calls calls b = fold (\<lambda>(t0, t1, outcome) b. snd (execute t0 t1 outcome b)) calls b"

section \<open>Tiered cache: src/util/cacheUtils.js\<close>

subsection \<open>Configuration\<close>

definition SEARCH_RESULTS :: int where
  "SEARCH_RESULTS = 5 * 60 * 1000"

definition MAX_ENTRIES :: nat where
  "MAX_ENTRIES = 100"

definition STORAGE_PREFIX :: string where
  "STORAGE_PREFIX = ''music_platform_cache_''"

definition METADATA_KEY :: string where
  "METADATA_KEY = ''cache_metadata''"

subsection \<open>MemoryCache\<close>

text \<open>
  A cached value is \<open>'v option\<close>: \<open>None\<close> is JavaScript's \<open>null\<close>, \<open>Some v\<close> any other
  value. An entry is the object \<open>{data, expiresAt, createdAt}\<close>. Times and durations are
  integers (milliseconds); \<open>now\<close> is what \<open>Date.now()\<close> returns during the call.
\<close>

record 'v cache_item =
  data :: "'v option"
  expiresAt :: int
  createdAt :: int

text \<open>
  The JavaScript \<open>Map\<close> is an association list in iteration order, oldest insertion
  first: \<open>map_of\<close> is \<open>Map.get\<close>, \<open>AList.update\<close> is \<open>Map.set\<close> (an existing key keeps
  its place, a new key goes to the end) and \<open>AList.delete\<close> is \<open>Map.delete\<close>.
\<close>

record 'v MemoryCache =
  cache :: "(string \<times> 'v cache_item) list"
  maxSize :: int

definition MemoryCache_new :: "int \<Rightarrow> 'v MemoryCache" where
  "MemoryCache_new size0 = \<lparr> cache = [], maxSize = size0 \<rparr>"

definition MemoryCache_get :: "int \<Rightarrow> string \<Rightarrow> 'v MemoryCache \<Rightarrow> 'v option \<times> 'v MemoryCache" where
  "MemoryCache_get now key m =
     (case map_of (cache m) key of
        None \<Rightarrow> (None, m)
      | Some item \<Rightarrow>
          if now > expiresAt item then (None, m\<lparr>cache := AList.delete key (cache m)\<rparr>)
          else (data item, m\<lparr>cache := AList.update key item (AList.delete key (cache m))\<rparr>))"

definition MemoryCache_set ::
  "int \<Rightarrow> string \<Rightarrow> 'v option \<Rightarrow> int \<Rightarrow> 'v MemoryCache \<Rightarrow> 'v MemoryCache" where
  "MemoryCache_set now key dat ttl m =
     (let c1 = (if int (length (cache m)) \<ge> maxSize m then
                  (case cache m of
                     [] \<Rightarrow> cache m
                   | (firstKey, _) # _ \<Rightarrow> AList.delete firstKey (cache m))
                else cache m)
      in m\<lparr>cache := AList.update key \<lparr>data = dat, expiresAt = now + ttl, createdAt = now\<rparr> c1\<rparr>)"

definition MemoryCache_delete :: "string \<Rightarrow> 'v MemoryCache \<Rightarrow> 'v MemoryCache" where
  "MemoryCache_delete key m = m\<lparr>cache := AList.delete key (cache m)\<rparr>"

definition MemoryCache_clear :: "'v MemoryCache \<Rightarrow> 'v MemoryCache" where
  "MemoryCache_clear m = m\<lparr>cache := []\<rparr>"

definition MemoryCache_size :: "'v MemoryCache \<Rightarrow> nat" where
  "MemoryCache_size m = length (cache m)"

definition MemoryCache_cleanup :: "int \<Rightarrow> 'v MemoryCache \<Rightarrow> 'v MemoryCache" where
  "MemoryCache_cleanup now m =
     m\<lparr>cache := filter (\<lambda>(key, item). \<not> now > expiresAt item) (cache m)\<rparr>"

text \<open>A run of \<open>set\<close> calls, each with its own time, key, value and ttl.\<close>

definition MemoryCache_set_all ::
  "(int \<times> string \<times> 'v option \<times> int) list \<Rightarrow> 'v MemoryCache \<Rightarrow> 'v MemoryCache" where
  "MemoryCache_set_all calls m =
     fold (\<lambda>(now, key, dat, ttl) m. MemoryCache_set now key dat ttl m) calls m"

text \<open>The key of one such call.\<close>

definition call_key :: "int \<times> string \<times> 'v option \<times> int \<Rightarrow> string" where
  "call_key c = fst (snd c)"

subsection \<open>localStorage\<close>

text \<open>
  The slots of \<open>localStorage\<close> that \<open>PersistentCache\<close> touches: one slot
  \<open>storagePrefix + key\<close> per cache key, holding the JSON of an entry, and the slot
  \<open>metadataKey\<close>, holding the JSON of the object \<open>key \<mapsto> {expiresAt, size}\<close> (\<open>None\<close>
  when the slot is absent). A slot holds what \<open>JSON.parse\<close> returns for it. The object's
  own properties are an association list in property order: array indices first, in
  ascending order, then the other keys in the order of their creation. The two kinds of
  slot are kept apart, so the model speaks about cache keys other than \<open>METADATA_KEY\<close>,
  whose slot would be the metadata slot itself.

  \<open>setItem_log\<close> is an observation log: every call of \<open>localStorage.setItem\<close>, whether
  it succeeded or threw.
\<close>

record cache_meta =
  expiresAt_meta :: int
  size_meta :: nat

datatype 'v storage_write =
    WriteItem string "'v cache_item"
  | WriteMetadata "(string \<times> cache_meta) list"

record 'v localStorage =
  items :: "(string \<times> 'v cache_item) list"
  metadata :: "(string \<times> cache_meta) list option"
  setItem_log :: "'v storage_write list"

text \<open>
  What the browser decides and the repository does not: whether a write fits the quota
  (\<open>quota_ok\<close>, given the storage before the write), and the length of
  \<open>JSON.stringify(item)\<close>.
\<close>

record 'v platform =
  quota_ok :: "'v localStorage \<Rightarrow> 'v storage_write \<Rightarrow> bool"
  stringify_length :: "'v cache_item \<Rightarrow> nat"

datatype storage_error = QuotaExceededError

definition localStorage_setItem ::
  "'v platform \<Rightarrow> 'v storage_write \<Rightarrow> 'v localStorage \<Rightarrow> (storage_error + unit) \<times> 'v localStorage" where
  "localStorage_setItem pf wr st =
     (let st1 = st\<lparr>setItem_log := setItem_log st @ [wr]\<rparr> in
      if quota_ok pf st wr then
        (Inr (),
         case wr of
           WriteItem key item \<Rightarrow> st1\<lparr>items := AList.update key item (items st1)\<rparr>
         | WriteMetadata md \<Rightarrow> st1\<lparr>metadata := Some md\<rparr>)
      else (Inl QuotaExceededError, st1))"

definition localStorage_removeItem :: "string \<Rightarrow> 'v localStorage \<Rightarrow> 'v localStorage" where
  "localStorage_removeItem key st = st\<lparr>items := AList.delete key (items st)\<rparr>"

definition localStorage_removeMetadata :: "'v localStorage \<Rightarrow> 'v localStorage" where
  "localStorage_removeMetadata st = st\<lparr>metadata := None\<rparr>"

subsection \<open>Property assignment on the metadata object\<close>

text \<open>
  An array index is the canonical decimal string of a number below \<open>2^32 - 1\<close>: digits
  only, no leading zero but for \<open>0\<close> itself.
\<close>

definition is_digit :: "char \<Rightarrow> bool" where
  "is_digit c \<longleftrightarrow> c \<in> set ''0123456789''"

definition decimal :: "string \<Rightarrow> nat" where
  "decimal s = foldl (\<lambda>n c. 10 * n + (of_char c - 48)) 0 s"

definition array_index :: "string \<Rightarrow> nat option" where
  "array_index key =
     (if key \<noteq> [] \<and> list_all is_digit key \<and> (hd key \<noteq> CHR ''0'' \<or> key = ''0'')
         \<and> decimal key < 2 ^ 32 - 1
      then Some (decimal key) else None)"

text \<open>A new array index \<open>n\<close> goes before the first property that is not a smaller index.\<close>

fun insert_index :: "nat \<Rightarrow> string \<Rightarrow> 'a \<Rightarrow> (string \<times> 'a) list \<Rightarrow> (string \<times> 'a) list" where
  "insert_index n key v [] = [(key, v)]"
| "insert_index n key v ((k, x) # ps) =
     (case array_index k of
        Some i \<Rightarrow> if i < n then (k, x) # insert_index n key v ps else (key, v) # (k, x) # ps
      | None \<Rightarrow> (key, v) # (k, x) # ps)"

text \<open>
  \<open>metadata[key] = v\<close> where \<open>v\<close> is an object. An own property keeps its place and takes
  the value. Otherwise the key \<open>__proto__\<close> reaches the setter of \<open>Object.prototype\<close>, which
  changes the prototype and creates no property; an array index is created among the
  indices; any other key is created last.
\<close>

definition object_assign :: "string \<Rightarrow> 'a \<Rightarrow> (string \<times> 'a) list \<Rightarrow> (string \<times> 'a) list" where
  "object_assign key v obj =
     (if key \<in> fst ` set obj then AList.update key v obj
      else if key = ''__proto__'' then obj
      else (case array_index key of
              Some n \<Rightarrow> insert_index n key v obj
            | None \<Rightarrow> obj @ [(key, v)]))"

subsection \<open>PersistentCache\<close>

definition getMetadata :: "'v localStorage \<Rightarrow> (string \<times> cache_meta) list" where
  "getMetadata st = (case metadata st of None \<Rightarrow> [] | Some md \<Rightarrow> md)"

text \<open>\<open>_setMetadata\<close> catches the error of a failed write and only logs it.\<close>

definition setMetadata ::
  "'v platform \<Rightarrow> (string \<times> cache_meta) list \<Rightarrow> 'v localStorage \<Rightarrow> 'v localStorage" where
  "setMetadata pf md st =
     (case localStorage_setItem pf (WriteMetadata md) st of
        (Inr _, st1) \<Rightarrow> st1
      | (Inl error, st1) \<Rightarrow> st1)"

text \<open>\<open>delete\<close> returns \<open>true\<close> on this path; nothing in its \<open>try\<close> block throws.\<close>

definition PersistentCache_delete ::
  "'v platform \<Rightarrow> string \<Rightarrow> 'v localStorage \<Rightarrow> 'v localStorage" where
  "PersistentCache_delete pf key st =
     (let st1 = localStorage_removeItem key st;
          md = getMetadata st1
      in setMetadata pf (AList.delete key md) st1)"

definition PersistentCache_get ::
  "'v platform \<Rightarrow> int \<Rightarrow> string \<Rightarrow> 'v localStorage \<Rightarrow> 'v option \<times> 'v localStorage" where
  "PersistentCache_get pf now key st =
     (case map_of (items st) key of
        None \<Rightarrow> (None, st)
      | Some parsed \<Rightarrow>
          if now > expiresAt parsed then (None, PersistentCache_delete pf key st)
          else (data parsed, st))"

definition PersistentCache_cleanup ::
  "'v platform \<Rightarrow> int \<Rightarrow> 'v localStorage \<Rightarrow> 'v localStorage" where
  "PersistentCache_cleanup pf now st =
     (let md = getMetadata st;
          st1 = fold (\<lambda>(key, meta) s.
                   if now > expiresAt_meta meta then localStorage_removeItem key s else s) md st;
          updatedMetadata = filter (\<lambda>(key, meta). \<not> now > expiresAt_meta meta) md
      in setMetadata pf updatedMetadata st1)"

text \<open>\<open>Math.floor(CACHE_CONFIG.MAX_ENTRIES * 0.2)\<close>\<close>

definition evict_count :: nat where
  "evict_count = nat \<lfloor>real MAX_ENTRIES * (2 / 10)\<rfloor>"

text \<open>
  The \<open>entries\<close> of \<open>_cleanupIfNeeded\<close>: \<open>Array.prototype.sort\<close> is stable, as
  \<open>sort_key\<close> is.
\<close>

definition cleanup_entries :: "(string \<times> cache_meta) list \<Rightarrow> (string \<times> cache_meta) list" where
  "cleanup_entries md = take evict_count (sort_key (\<lambda>(key, meta). expiresAt_meta meta) md)"

definition cleanupIfNeeded :: "'v platform \<Rightarrow> 'v localStorage \<Rightarrow> 'v localStorage" where
  "cleanupIfNeeded pf st =
     (let md = getMetadata st;
          totalEntries = length md
      in if totalEntries > MAX_ENTRIES then
           fold (\<lambda>(key, meta) s. PersistentCache_delete pf key s) (cleanup_entries md) st
         else st)"

definition PersistentCache_set ::
  "'v platform \<Rightarrow> int \<Rightarrow> string \<Rightarrow> 'v option \<Rightarrow> int \<Rightarrow> 'v localStorage \<Rightarrow> 'v localStorage" where
  "PersistentCache_set pf now key dat ttl st =
     (let item = \<lparr>data = dat, expiresAt = now + ttl, createdAt = now\<rparr> in
      case localStorage_setItem pf (WriteItem key item) st of
        (Inr _, st1) \<Rightarrow>
          (let md = getMetadata st1;
               st2 = setMetadata pf
                       (object_assign key
                          \<lparr>expiresAt_meta = expiresAt item, size_meta = stringify_length pf item\<rparr> md)
                       st1
           in cleanupIfNeeded pf st2)
      | (Inl error, st1) \<Rightarrow>
          (case error of
             QuotaExceededError \<Rightarrow>
               (let st2 = PersistentCache_cleanup pf now st1 in
                case localStorage_setItem pf (WriteItem key item) st2 of
                  (Inr _, st3) \<Rightarrow> st3
                | (Inl retryError, st3) \<Rightarrow> st3)))"

definition PersistentCache_clear :: "'v localStorage \<Rightarrow> 'v localStorage" where
  "PersistentCache_clear st =
     (let md = getMetadata st;
          st1 = fold (\<lambda>(key, meta) s. localStorage_removeItem key s) md st
      in localStorage_removeMetadata st1)"

text \<open>
  \<open>getStats\<close>. \<open>this.hitRate\<close> is never assigned, so \<open>this.hitRate || 0\<close> is 0.
\<close>

record persistent_report =
  totalEntries_p :: nat
  totalSize_p :: nat
  expiredCount_p :: nat
  hitRate_p :: real

definition PersistentCache_getStats :: "int \<Rightarrow> 'v localStorage \<Rightarrow> persistent_report" where
  "PersistentCache_getStats now st =
     (let md = getMetadata st in
      \<lparr> totalEntries_p = length md,
        totalSize_p = sum_list (map (\<lambda>(key, meta). size_meta meta) md),
        expiredCount_p = length (filter (\<lambda>(key, meta). now > expiresAt_meta meta) md),
        hitRate_p = 0 \<rparr>)"

text \<open>
  The invariant of the metadata index: the cache keys with a slot in the durable medium
  are the keys of the metadata object, each once.
\<close>

definition index_consistent :: "'v localStorage \<Rightarrow> bool" where
  "index_consistent st \<longleftrightarrow>
     distinct (map fst (getMetadata st))
     \<and> set (map fst (items st)) = set (map fst (getMetadata st))"

subsection \<open>HybridCache\<close>

record cache_stats =
  hits :: nat
  misses :: nat
  sets :: nat

text \<open>
  \<open>persistentCache\<close> stands for the \<open>PersistentCache\<close> object together with the
  \<open>localStorage\<close> slots it works on.
\<close>

record 'v HybridCache =
  memoryCache :: "'v MemoryCache"
  persistentCache :: "'v localStorage"
  stats :: cache_stats

definition HybridCache_new :: "'v localStorage \<Rightarrow> 'v HybridCache" where
  "HybridCache_new st =
     \<lparr> memoryCache = MemoryCache_new (int MAX_ENTRIES), persistentCache = st,
       stats = \<lparr>hits = 0, misses = 0, sets = 0\<rparr> \<rparr>"

definition HybridCache_get ::
  "'v platform \<Rightarrow> int \<Rightarrow> string \<Rightarrow> 'v HybridCache \<Rightarrow> 'v option \<times> 'v HybridCache" where
  "HybridCache_get pf now key h =
     (case MemoryCache_get now key (memoryCache h) of
        (d, m1) \<Rightarrow>
          if d \<noteq> None then
            (d, h\<lparr>memoryCache := m1, stats := (stats h)\<lparr>hits := hits (stats h) + 1\<rparr>\<rparr>)
          else
            (case PersistentCache_get pf now key (persistentCache h) of
               (d2, p1) \<Rightarrow>
                 if d2 \<noteq> None then
                   (d2, h\<lparr>memoryCache := MemoryCache_set now key d2 (5 * 60 * 1000) m1,
                          persistentCache := p1,
                          stats := (stats h)\<lparr>hits := hits (stats h) + 1\<rparr>\<rparr>)
                 else
                   (None, h\<lparr>memoryCache := m1, persistentCache := p1,
                            stats := (stats h)\<lparr>misses := misses (stats h) + 1\<rparr>\<rparr>)))"

definition HybridCache_set ::
  "'v platform \<Rightarrow> int \<Rightarrow> string \<Rightarrow> 'v option \<Rightarrow> int \<Rightarrow> 'v HybridCache \<Rightarrow> 'v HybridCache" where
  "HybridCache_set pf now key dat ttl h =
     h\<lparr>memoryCache := MemoryCache_set now key dat (min ttl (5 * 60 * 1000)) (memoryCache h),
       persistentCache := PersistentCache_set pf now key dat ttl (persistentCache h),
       stats := (stats h)\<lparr>sets := sets (stats h) + 1\<rparr>\<rparr>"

definition HybridCache_delete :: "'v platform \<Rightarrow> string \<Rightarrow> 'v HybridCache \<Rightarrow> 'v HybridCache" where
  "HybridCache_delete pf key h =
     h\<lparr>memoryCache := MemoryCache_delete key (memoryCache h),
       persistentCache := PersistentCache_delete pf key (persistentCache h)\<rparr>"

definition HybridCache_clear :: "'v HybridCache \<Rightarrow> 'v HybridCache" where
  "HybridCache_clear h =
     h\<lparr>memoryCache := MemoryCache_clear (memoryCache h),
       persistentCache := PersistentCache_clear (persistentCache h),
       stats := \<lparr>hits = 0, misses = 0, sets = 0\<rparr>\<rparr>"

definition HybridCache_cleanup :: "'v platform \<Rightarrow> int \<Rightarrow> 'v HybridCache \<Rightarrow> 'v HybridCache" where
  "HybridCache_cleanup pf now h =
     h\<lparr>memoryCache := MemoryCache_cleanup now (memoryCache h),
       persistentCache := PersistentCache_cleanup pf now (persistentCache h)\<rparr>"

text \<open>
  \<open>getStats\<close> of the hybrid cache returns one flat object: the counters, \<open>hitRate\<close>
  (rounded to two decimals), \<open>memorySize\<close>, and then the properties of the persistent
  report spread over them, whose \<open>hitRate\<close> replaces the rounded one.
\<close>

record cache_report = cache_stats +
  hitRate :: real
  memorySize :: nat
  totalEntries :: nat
  totalSize :: nat
  expiredCount :: nat

definition HybridCache_getStats :: "int \<Rightarrow> 'v HybridCache \<Rightarrow> cache_report" where
  "HybridCache_getStats now h =
     (let persistentStats = PersistentCache_getStats now (persistentCache h);
          rate = (if hits (stats h) + misses (stats h) > 0
                  then real (hits (stats h)) / real (hits (stats h) + misses (stats h))
                  else 0);
          own = \<lparr> hits = hits (stats h), misses = misses (stats h), sets = sets (stats h),
                  hitRate = real_of_int (round (rate * 100)) / 100,
                  memorySize = MemoryCache_size (memoryCache h),
                  totalEntries = 0, totalSize = 0, expiredCount = 0 \<rparr>
      in own\<lparr> totalEntries := totalEntries_p persistentStats,
              totalSize := totalSize_p persistentStats,
              expiredCount := expiredCount_p persistentStats,
              hitRate := hitRate_p persistentStats \<rparr>)"

subsection \<open>withCache\<close>

text \<open>
  The program state around the wrapped function: the one \<open>globalCache\<close>, the outside
  world the wrapped function \<open>fn\<close> acts on, and an observation count of the invocations
  of \<open>fn\<close>. A call of the wrapper reads the cache at time \<open>t_get\<close> and, when \<open>fn\<close> has
  resolved, writes it at time \<open>t_set\<close>.
\<close>

record ('v, 'w) program =
  globalCache :: "'v HybridCache"
  outside :: 'w
  invocations :: nat

definition withCache ::
  "'v platform \<Rightarrow> ('args \<Rightarrow> 'w \<Rightarrow> (js_error + 'v option) \<times> 'w) \<Rightarrow> ('args \<Rightarrow> string) \<Rightarrow> int
     \<Rightarrow> int \<Rightarrow> int \<Rightarrow> 'args \<Rightarrow> ('v, 'w) program \<Rightarrow> (js_error + 'v option) \<times> ('v, 'w) program" where
  "withCache pf fn keyGenerator ttl t_get t_set args s =
     (let cacheKey = keyGenerator args in
      case HybridCache_get pf t_get cacheKey (globalCache s) of
        (cached, c1) \<Rightarrow>
          if cached \<noteq> None then (Inr cached, s\<lparr>globalCache := c1\<rparr>)
          else
            (case fn args (outside s) of
               (Inr result, w) \<Rightarrow>
                 (Inr result,
                  s\<lparr>globalCache := HybridCache_set pf t_set cacheKey result ttl c1,
                    outside := w, invocations := invocations s + 1\<rparr>)
             | (Inl error, w) \<Rightarrow>
                 (Inl error,
                  s\<lparr>globalCache := c1, outside := w, invocations := invocations s + 1\<rparr>)))"

section \<open>Concrete programs and states\<close>

text \<open>An operation that fails on every invocation with a server error naming the attempt.\<close>

definition always_fails :: "(unit, nat) operation" where
  "always_fails w = (Inl (JsError ''down'' (Some (500 + int w))), Suc w)"

text \<open>An operation that the server rejects with status 400.\<close>

definition rejected :: "(unit, nat) operation" where
  "rejected w = (Inl (JsError ''bad request'' (Some 400)), Suc w)"

definition down :: js_error where
  "down = JsError ''down'' None"

text \<open>
  A default breaker (threshold 5) after five failures and, once the reset timeout has
  passed, one successful call; and the same history for a breaker of threshold 1.
\<close>

definition recovering :: CircuitBreaker where
  "recovering = run_calls
     [(0, 1, Inl down), (2, 3, Inl down), (4, 5, Inl down), (6, 7, Inl down), (8, 9, Inl down),
      (70000, 70001, Inr ())]
     (CircuitBreaker_new None None None)"

definition recovering1 :: CircuitBreaker where
  "recovering1 = run_calls [(0, 1, Inl down), (70000, 70001, Inr ())]
     (CircuitBreaker_new (Some 1) None None)"

definition tripped :: CircuitBreaker where
  "tripped = run_calls [(0, 1, Inl down)] (CircuitBreaker_new (Some 1) None None)"

text \<open>A memory cache of capacity 2 after two insertions.\<close>

definition two_of_two :: "nat MemoryCache" where
  "two_of_two =
     MemoryCache_set_all [(0, ''a'', Some 1, 1000), (1, ''b'', Some 2, 1000)] (MemoryCache_new 2)"

text \<open>
  Three platforms: one whose storage never refuses a write, one whose storage refuses
  every write, and one whose storage has room for a single entry.
\<close>

definition roomy :: "nat platform" where
  "roomy = \<lparr> quota_ok = (\<lambda>st wr. True), stringify_length = (\<lambda>item. 64) \<rparr>"

definition exhausted :: "nat platform" where
  "exhausted = \<lparr> quota_ok = (\<lambda>st wr. False), stringify_length = (\<lambda>item. 64) \<rparr>"

definition one_slot :: "nat platform" where
  "one_slot =
     \<lparr> quota_ok = (\<lambda>st wr.
         case wr of
           WriteItem key item \<Rightarrow> length (AList.update key item (items st)) \<le> 1
         | WriteMetadata md \<Rightarrow> True),
       stringify_length = (\<lambda>item. 64) \<rparr>"

definition empty_storage :: "nat localStorage" where
  "empty_storage = \<lparr> items = [], metadata = None, setItem_log = [] \<rparr>"

text \<open>The single-entry storage after \<open>set('old', 1, 10)\<close> at time 0.\<close>

definition old_stored :: "nat localStorage" where
  "old_stored = PersistentCache_set one_slot 0 ''old'' (Some 1) 10 empty_storage"




text \<open>
  A storage tracking \<open>n\<close> keys, the \<open>i\<close>-th expiring at time \<open>i\<close>, each with its entry
  and its metadata record.
\<close>

definition key_of :: "nat \<Rightarrow> string" where
  "key_of i = replicate i CHR ''k''"

definition crowded :: "nat \<Rightarrow> nat localStorage" where
  "crowded n =
     \<lparr> items = map (\<lambda>i. (key_of i, \<lparr>data = Some i, expiresAt = int i, createdAt = 0\<rparr>)) [0..<n],
       metadata = Some (map (\<lambda>i. (key_of i, \<lparr>expiresAt_meta = int i, size_meta = 64\<rparr>)) [0..<n]),
       setItem_log = [] \<rparr>"

text \<open>A hybrid cache whose durable tier alone holds a value, written there directly.\<close>

definition durable_only :: "nat HybridCache" where
  "durable_only =
     HybridCache_new (PersistentCache_set roomy 0 ''track:1'' (Some 7) 1000 empty_storage)"

text \<open>A hybrid cache whose durable tier alone holds an entry, with the value \<open>null\<close>.\<close>

definition durable_null :: "nat HybridCache" where
  "durable_null =
     HybridCache_new (PersistentCache_set roomy 0 ''track:1'' None 1000 empty_storage)"

text \<open>A hybrid cache after \<open>set('profile:u', null, 1000)\<close> at time 0.\<close>

definition null_cached :: "nat HybridCache" where
  "null_cached = HybridCache_set roomy 0 ''profile:u'' None 1000 (HybridCache_new empty_storage)"

text \<open>
  Wrapped functions: a search whose result depends on the world it runs in, one that
  resolves to \<open>null\<close>, one that always throws, and one that the service answers once and
  fails afterwards; and the program state at start.
\<close>

definition search_key :: "string \<Rightarrow> string" where
  "search_key query = ''search:'' @ query"

definition search :: "string \<Rightarrow> nat \<Rightarrow> (js_error + nat option) \<times> nat" where
  "search query w = (Inr (Some (length query + w)), Suc w)"

definition search_null :: "string \<Rightarrow> nat \<Rightarrow> (js_error + nat option) \<times> nat" where
  "search_null query w = (Inr None, Suc w)"

definition search_down :: "string \<Rightarrow> nat \<Rightarrow> (js_error + nat option) \<times> nat" where
  "search_down query w = (Inl down, Suc w)"

definition search_once :: "string \<Rightarrow> nat \<Rightarrow> (js_error + nat option) \<times> nat" where
  "search_once query w = (if w = 0 then Inr (Some (length query)) else Inl down, Suc w)"

definition start :: "(nat, nat) program" where
  "start = \<lparr> globalCache = HybridCache_new empty_storage, outside = 0, invocations = 0 \<rparr>"

section \<open>The retry loop\<close>

lemma run_attempts_snoc:
  assumes "run_attempts operation n w = (rs, w1)" and "operation w1 = (r, w2)"
  shows "run_attempts operation (Suc n) w = (rs @ [r], w2)"
  using assms
proof (induction n arbitrary: w rs)
  case 0
  then show ?case by simp
next
  case (Suc n)
  obtain r0 wa where a: "operation w = (r0, wa)" by (cases "operation w")
  obtain rs0 wb where b: "run_attempts operation n wa = (rs0, wb)"
    by (cases "run_attempts operation n wa")
  from Suc.prems(1) a b have eq: "rs = r0 # rs0" "wb = w1" by simp_all
  from Suc.IH [OF b [unfolded eq(2)] Suc.prems(2)]
  have "run_attempts operation (Suc n) wa = (rs0 @ [r], w2)" .
  then have "run_attempts operation (Suc (Suc n)) w = (r0 # rs0 @ [r], w2)"
    using a by (simp del: run_attempts.simps add: run_attempts.simps(2) [of operation "Suc n" w])
  then show ?case using eq by simp
qed

lemma retry_loop_inv:
  assumes "retry_inv operation w0 attempt s"
    and "retry_loop cfg operation rnd attempt s = (res, s')"
    and "int attempt < maxAttempts cfg"
  shows "attempt < length (trace s') \<and> int (length (trace s')) \<le> maxAttempts cfg
       \<and> run_attempts operation (length (trace s')) w0 = (trace s', world s')
       \<and> (\<forall>r \<in> set (butlast (trace s')). \<exists>e. r = Inl e)
       \<and> (case res of Inl x \<Rightarrow> \<exists>e. last (trace s') = Inl e \<and> x = Some e
            | Inr v \<Rightarrow> last (trace s') = Inr v)"
  using assms
proof (induction cfg operation rnd attempt s rule: retry_loop.induct)
  case (1 cfg operation rnd attempt s)
  obtain r w where op: "operation (world s) = (r, w)" by (cases "operation (world s)")
  from "1.prems"(1) have len: "length (trace s) = attempt"
    and run: "run_attempts operation attempt w0 = (trace s, world s)"
    and fails: "\<forall>r \<in> set (trace s). \<exists>e. r = Inl e"
    by (simp_all add: retry_inv_def)
  have run': "run_attempts operation (Suc attempt) w0 = (trace s @ [r], w)"
    using run_attempts_snoc [OF run op] .
  show ?case
  proof (cases r)
    case (Inr v)
    with "1.prems" op have "res = Inr v" "s' = s\<lparr>world := w, trace := trace s @ [Inr v]\<rparr>"
      by (simp_all add: retry_loop.simps [of cfg operation rnd attempt s])
    with len run' fails Inr "1.prems"(3) show ?thesis by simp
  next
    case (Inl e)
    let ?s1 = "s\<lparr>world := w, lastError := Some e, trace := trace s @ [Inl e]\<rparr>"
    show ?thesis
    proof (cases "int attempt = maxAttempts cfg - 1 \<or> \<not> retryCondition cfg e")
      case True
      with "1.prems" op Inl have "res = Inl (Some e)" "s' = ?s1"
        by (auto simp add: retry_loop.simps [of cfg operation rnd attempt s] Let_def
              split: if_splits)
      with len run' fails Inl "1.prems"(3) show ?thesis by simp
    next
      case False
      let ?d = "addJitter
        (calculateDelay attempt (baseDelay cfg) (backoffFactor cfg) (maxDelay cfg)) 0.1 (rnd attempt)"
      let ?s2 = "?s1\<lparr>slept := slept ?s1 @ [?d]\<rparr>"
      from False "1.prems" op Inl
      have rec: "retry_loop cfg operation rnd (attempt + 1) ?s2 = (res, s')"
        by (simp add: retry_loop.simps [of cfg operation rnd attempt s] Let_def)
      have inv: "retry_inv operation w0 (attempt + 1) ?s2"
        using len run' fails Inl by (simp add: retry_inv_def)
      have lt: "int (attempt + 1) < maxAttempts cfg" using False "1.prems"(3) by simp
      have "attempt + 1 < length (trace s') \<and> int (length (trace s')) \<le> maxAttempts cfg
       \<and> run_attempts operation (length (trace s')) w0 = (trace s', world s')
       \<and> (\<forall>r \<in> set (butlast (trace s')). \<exists>e. r = Inl e)
       \<and> (case res of Inl x \<Rightarrow> \<exists>e. last (trace s') = Inl e \<and> x = Some e
            | Inr v \<Rightarrow> last (trace s') = Inr v)"
        using "1.IH" [OF "1.prems"(3) op [symmetric] Inl refl _ _ refl refl inv rec lt] False
        by simp
      then show ?thesis by simp
    qed
  qed
qed

text \<open>
  C7. When the first attempt fails with an error that \<open>retryCondition\<close> rejects and more
  attempts would be allowed (\<open>maxAttempts > 1\<close>), \<open>retryWithBackoff\<close> stops at once: the
  operation has been invoked exactly once, nothing has slept, and that error is thrown.
\<close>

theorem retry_stops_on_non_retryable:
  assumes "operation w = (Inl e, w1)" and "\<not> retryCondition cfg e" and "1 < maxAttempts cfg"
  shows "retryWithBackoff cfg operation rnd w =
           (Inl (Some e), \<lparr>world = w1, lastError = Some e, trace = [Inl e], slept = []\<rparr>)"
  using assms by (simp add: retryWithBackoff_def retry_loop.simps [of _ _ _ 0])

theorem retry_stops_on_non_retryable_witness:
  "retryWithBackoff DEFAULT_RETRY_CONFIG rejected (\<lambda>i. 0) 0 =
     (Inl (Some (JsError ''bad request'' (Some 400))),
      \<lparr>world = 1, lastError = Some (JsError ''bad request'' (Some 400)),
       trace = [Inl (JsError ''bad request'' (Some 400))], slept = []\<rparr>)"
  using retry_stops_on_non_retryable
          [of rejected 0 "JsError ''bad request'' (Some 400)" 1 DEFAULT_RETRY_CONFIG "\<lambda>i. 0"]
  by (simp add: rejected_def DEFAULT_RETRY_CONFIG_def)

text \<open>
  C8. With \<open>maxAttempts \<ge> 1\<close>, \<open>retryWithBackoff\<close> invokes the operation at least once and
  at most \<open>maxAttempts\<close> times, one invocation after the other (each starts in the world
  the previous one left); and when every attempt failed, the error thrown is the error of
  the last attempt made.
\<close>

theorem retry_bounded_last_error:
  assumes "1 \<le> maxAttempts cfg" and "retryWithBackoff cfg operation rnd w = (res, s)"
  shows "1 \<le> length (trace s) \<and> int (length (trace s)) \<le> maxAttempts cfg
         \<and> run_attempts operation (length (trace s)) w = (trace s, world s)
         \<and> ((\<forall>r \<in> set (trace s). \<exists>e. r = Inl e)
              \<longrightarrow> (\<exists>e. last (trace s) = Inl e \<and> res = Inl (Some e)))"
proof -
  let ?s0 = "\<lparr>world = w, lastError = None, trace = [], slept = []\<rparr> :: ('a, 'b) retry_state"
  have inv: "retry_inv operation w 0 ?s0" by (simp add: retry_inv_def)
  have run: "retry_loop cfg operation rnd 0 ?s0 = (res, s)"
    using assms(2) by (simp add: retryWithBackoff_def)
  have lt: "int 0 < maxAttempts cfg" using assms(1) by simp
  note main = retry_loop_inv [OF inv run lt]
  then have ne: "trace s \<noteq> []" by auto
  have "(\<forall>r \<in> set (trace s). \<exists>e. r = Inl e)
              \<longrightarrow> (\<exists>e. last (trace s) = Inl e \<and> res = Inl (Some e))"
  proof
    assume all: "\<forall>r \<in> set (trace s). \<exists>e. r = Inl e"
    from ne have "last (trace s) \<in> set (trace s)" by simp
    with all obtain e where e: "last (trace s) = Inl e" by blast
    show "\<exists>e. last (trace s) = Inl e \<and> res = Inl (Some e)"
    proof (cases res)
      case (Inl x)
      with main e show ?thesis by auto
    next
      case (Inr v)
      with main e show ?thesis by auto
    qed
  qed
  with main show ?thesis by (cases "trace s") auto
qed

theorem retry_bounded_last_error_witness:
  "retryWithBackoff DEFAULT_RETRY_CONFIG always_fails (\<lambda>i. 0) 0 =
     (Inl (Some (JsError ''down'' (Some 502))),
      \<lparr>world = 3, lastError = Some (JsError ''down'' (Some 502)),
       trace = [Inl (JsError ''down'' (Some 500)), Inl (JsError ''down'' (Some 501)),
                Inl (JsError ''down'' (Some 502))],
       slept = [1000, 2000]\<rparr>)
   \<and> int (length [Inl (JsError ''down'' (Some 500)), Inl (JsError ''down'' (Some 501)),
                Inl (JsError ''down'' (Some 502)) :: js_error + unit]) \<le> maxAttempts DEFAULT_RETRY_CONFIG
   \<and> run_attempts always_fails 3 0 =
       ([Inl (JsError ''down'' (Some 500)), Inl (JsError ''down'' (Some 501)),
         Inl (JsError ''down'' (Some 502))], 3)"
proof -
  let ?tr = "[Inl (JsError ''down'' (Some 500)), Inl (JsError ''down'' (Some 501)),
                Inl (JsError ''down'' (Some 502))] :: (js_error + unit) list"
  let ?s = "\<lparr>world = 3 :: nat, lastError = Some (JsError ''down'' (Some 502)),
       trace = ?tr, slept = [1000, 2000]\<rparr>"
  have run: "retryWithBackoff DEFAULT_RETRY_CONFIG always_fails (\<lambda>i. 0) 0 =
     (Inl (Some (JsError ''down'' (Some 502))), ?s)"
    by (simp add: retryWithBackoff_def retry_loop.simps DEFAULT_RETRY_CONFIG_def always_fails_def
          calculateDelay_def addJitter_def Let_def)
  have "1 \<le> maxAttempts DEFAULT_RETRY_CONFIG" by (simp add: DEFAULT_RETRY_CONFIG_def)
  from retry_bounded_last_error [OF this run] run show ?thesis
    by (simp add: numeral_3_eq_3)
qed

section \<open>The circuit breaker\<close>

lemma execute_admit:
  "execute t0 t1 outcome b =
     (case admit t0 b of
        Inl err \<Rightarrow> (Inl err, b)
      | Inr b1 \<Rightarrow>
          (case outcome of
             Inr result \<Rightarrow> (Inr result, onSuccess b1)
           | Inl error \<Rightarrow> (Inl (OperationError error), onFailure t1 b1)))"
  by (simp add: execute_def admit_def Let_def)

lemma in_flight_execute:
  assumes "in_flight b n"
  shows "in_flight (snd (execute t0 t1 outcome b)) n"
proof (cases "admit t0 b")
  case (Inl err)
  with assms show ?thesis by (simp add: execute_admit)
next
  case (Inr b1)
  from in_flight.admitted [OF assms Inr] have run: "in_flight b1 (Suc n)" .
  show ?thesis
  proof (cases outcome)
    case (Inl error)
    with \<open>admit t0 b = Inr b1\<close> in_flight.failed [OF run, of t1] show ?thesis
      by (simp add: execute_admit)
  next
    case (Inr result)
    with \<open>admit t0 b = Inr b1\<close> in_flight.succeeded [OF run] show ?thesis
      by (simp add: execute_admit)
  qed
qed

lemma in_flight_run_calls: "in_flight b n \<Longrightarrow> in_flight (run_calls calls b) n"
  unfolding run_calls_def
  by (induction calls arbitrary: b) (auto intro: in_flight_execute)

lemma reachable_run_calls: "reachable (run_calls calls (CircuitBreaker_new ft rt mp))"
  unfolding reachable_def
  by (rule exI [of _ 0], rule in_flight_run_calls, rule in_flight.fresh)

lemma recovering_eval:
  "recovering = \<lparr> failureThreshold = 5, resetTimeout = 60000, monitoringPeriod = 10000,
     state = HALF_OPEN, failureCount = 0, lastFailureTime = Some 9, successCount = 1 \<rparr>"
  by (simp add: recovering_def run_calls_def CircuitBreaker_new_def or_default_def execute_def
        onFailure_def onSuccess_def Let_def down_def)

lemma recovering1_eval:
  "recovering1 = \<lparr> failureThreshold = 1, resetTimeout = 60000, monitoringPeriod = 10000,
     state = HALF_OPEN, failureCount = 0, lastFailureTime = Some 1, successCount = 1 \<rparr>"
  by (simp add: recovering1_def run_calls_def CircuitBreaker_new_def or_default_def execute_def
        onFailure_def onSuccess_def Let_def down_def)

lemma tripped_eval:
  "tripped = \<lparr> failureThreshold = 1, resetTimeout = 60000, monitoringPeriod = 10000,
     state = OPEN, failureCount = 1, lastFailureTime = Some 1, successCount = 0 \<rparr>"
  by (simp add: tripped_def run_calls_def CircuitBreaker_new_def or_default_def execute_def
        onFailure_def onSuccess_def Let_def down_def)

text \<open>
  C1, as the code has it. In every breaker state, \<open>HALF_OPEN\<close> and reachable or not, in
  which \<open>execute\<close> runs the operation (the call is not rejected with the breaker-open
  error): if the operation fails, its error is re-thrown, \<open>lastFailureTime\<close> is set to
  the current time and \<open>failureCount\<close> goes up by one. After \<open>execute\<close> the state is \<open>OPEN\<close>
  exactly when the new count has reached \<open>failureThreshold\<close>; otherwise a breaker that
  was \<open>HALF_OPEN\<close>, or that this call moved from \<open>OPEN\<close> to \<open>HALF_OPEN\<close>, is \<open>HALF_OPEN\<close>
  afterwards. So the outcome depends on the successes that came before, each of which
  set the count to 0. When other calls have overlapped the operation, the failure
  handler does the same to the state \<open>b2\<close> they left.
\<close>

theorem half_open_failure:
  assumes "execute t0 t1 (Inl e) b = (res, b')" and "res \<noteq> Inl BreakerOpen"
  shows "res = Inl (OperationError e)
       \<and> lastFailureTime b' = Some t1
       \<and> failureCount b' = failureCount b + 1
       \<and> state b' = (if failureThreshold b \<le> failureCount b + 1 then OPEN
                      else if state b = OPEN then HALF_OPEN else state b)
       \<and> (state b = HALF_OPEN \<longrightarrow>
            (state b' = OPEN \<longleftrightarrow> failureThreshold b \<le> failureCount b + 1)
            \<and> (state b' = HALF_OPEN \<longleftrightarrow> failureCount b + 1 < failureThreshold b))
       \<and> lastFailureTime (onFailure t1 b2) = Some t1
       \<and> failureCount (onFailure t1 b2) = failureCount b2 + 1
       \<and> state (onFailure t1 b2) =
           (if failureThreshold b2 \<le> failureCount b2 + 1 then OPEN else state b2)"
  using assms
  by (auto simp: execute_def onFailure_def Let_def split: if_splits)

theorem half_open_failure_witness:
  "execute 70002 70003 (Inl down :: js_error + unit) recovering1 =
       (Inl (OperationError down), recovering1\<lparr>state := OPEN, failureCount := 1,
                                               lastFailureTime := Some 70003\<rparr>)
   \<and> state recovering1 = HALF_OPEN
   \<and> failureThreshold recovering1 \<le> failureCount recovering1 + 1
   \<and> execute 70000 70001 (Inl down :: js_error + unit) tripped =
       (Inl (OperationError down), tripped\<lparr>state := OPEN, failureCount := 2,
                                           lastFailureTime := Some 70001, successCount := 0\<rparr>)
   \<and> state (onFailure 70003 recovering) = HALF_OPEN
   \<and> lastFailureTime (onFailure 70003 recovering) = Some 70003"
proof -
  have e1: "execute 70002 70003 (Inl down :: js_error + unit) recovering1 =
       (Inl (OperationError down), recovering1\<lparr>state := OPEN, failureCount := 1,
                                               lastFailureTime := Some 70003\<rparr>)"
    by (simp add: recovering1_eval execute_def onFailure_def Let_def)
  have e2: "execute 70000 70001 (Inl down :: js_error + unit) tripped =
       (Inl (OperationError down), tripped\<lparr>state := OPEN, failureCount := 2,
                                           lastFailureTime := Some 70001, successCount := 0\<rparr>)"
    by (simp add: tripped_eval execute_def onFailure_def Let_def)
  have ran: "(Inl (OperationError down) :: breaker_error + unit) \<noteq> Inl BreakerOpen" by simp
  from half_open_failure [OF e1 ran, of recovering] half_open_failure [OF e2 ran, of recovering]
    e1 e2
  show ?thesis by (simp add: recovering1_eval recovering_eval)
qed

text \<open>
  The claim as stated fails: the default breaker that has had one success while
  \<open>HALF_OPEN\<close> is reachable, \<open>execute\<close> runs the operation on it, and the failure leaves
  it \<open>HALF_OPEN\<close>.
\<close>

theorem half_open_failure_stays_half_open:
  "reachable recovering \<and> state recovering = HALF_OPEN
   \<and> fst (execute 70002 70003 (Inl down :: js_error + unit) recovering) = Inl (OperationError down)
   \<and> state (snd (execute 70002 70003 (Inl down :: js_error + unit) recovering)) = HALF_OPEN"
proof -
  have "reachable recovering" unfolding recovering_def by (rule reachable_run_calls)
  then show ?thesis
    by (simp add: recovering_eval execute_def onFailure_def Let_def)
qed

section \<open>The memory cache\<close>

lemmas object_assign_eval = object_assign_def array_index_def is_digit_def

lemma update_new_key: "key \<notin> fst ` set al \<Longrightarrow> AList.update key v al = al @ [(key, v)]"
  by (induction al) auto

lemma delete_absent: "key \<notin> fst ` set al \<Longrightarrow> AList.delete key al = al"
  by (induction al) auto

lemma call_key_simp [simp]: "call_key (now, key, dat, ttl) = key"
  by (simp add: call_key_def)

lemma maxSize_set [simp]: "maxSize (MemoryCache_set now key dat ttl m) = maxSize m"
  by (simp add: MemoryCache_set_def Let_def)

lemma get_after_set:
  "map_of (cache (MemoryCache_set now key dat ttl m)) key =
     Some \<lparr>data = dat, expiresAt = now + ttl, createdAt = now\<rparr>"
  by (simp add: MemoryCache_set_def Let_def update_conv')

lemma memory_get_fresh:
  assumes "map_of (cache m) key = Some item" and "\<not> t > expiresAt item"
  shows "fst (MemoryCache_get t key m) = data item"
  using assms by (simp add: MemoryCache_get_def)

lemma set_new_at_capacity:
  assumes "distinct (map fst (cache m))" and "int (length (cache m)) = maxSize m"
    and "cache m \<noteq> []" and "key \<notin> fst ` set (cache m)"
  shows "cache (MemoryCache_set now key dat ttl m) =
           tl (cache m) @ [(key, \<lparr>data = dat, expiresAt = now + ttl, createdAt = now\<rparr>)]"
proof -
  from assms(3) obtain k0 e0 rest where c: "cache m = (k0, e0) # rest"
    by (cases "cache m") auto
  with assms(1) have "k0 \<notin> fst ` set rest" by auto
  then have d: "AList.delete k0 (cache m) = rest" using c by (simp add: delete_absent)
  from assms(4) c have "key \<notin> fst ` set rest" by auto
  then show ?thesis using c d assms(2)
    by (simp add: MemoryCache_set_def update_new_key)
qed

lemma set_at_capacity:
  assumes "distinct (map fst (cache m))" and "int (length (cache m)) = maxSize m"
    and "cache m = (k0, e0) # rest"
  shows "cache (MemoryCache_set now key dat ttl m) =
           AList.update key \<lparr>data = dat, expiresAt = now + ttl, createdAt = now\<rparr> rest"
proof -
  from assms(1,3) have "k0 \<notin> fst ` set rest" by auto
  then have "AList.delete k0 (cache m) = rest" using assms(3) by (simp add: delete_absent)
  then show ?thesis using assms(2,3) by (simp add: MemoryCache_set_def)
qed

lemma set_present_at_capacity:
  assumes "distinct (map fst (cache m))" and "int (length (cache m)) = maxSize m"
    and "cache m = (k0, e0) # rest"
  shows "(key = k0 \<longrightarrow>
            cache (MemoryCache_set now key dat ttl m) =
              rest @ [(key, \<lparr>data = dat, expiresAt = now + ttl, createdAt = now\<rparr>)])
       \<and> (key \<in> fst ` set rest \<longrightarrow>
            map fst (cache (MemoryCache_set now key dat ttl m)) = map fst rest
            \<and> map_of (cache (MemoryCache_set now key dat ttl m)) =
                (map_of rest)(key \<mapsto> \<lparr>data = dat, expiresAt = now + ttl, createdAt = now\<rparr>)
            \<and> map_of (cache (MemoryCache_set now key dat ttl m)) k0 = None
            \<and> int (length (cache (MemoryCache_set now key dat ttl m))) = maxSize m - 1)"
proof (intro conjI impI)
  note upd = set_at_capacity [OF assms, of now key dat ttl]
  from assms(1,3) have k0: "k0 \<notin> fst ` set rest" by auto
  {
    assume "key = k0"
    with k0 show "cache (MemoryCache_set now key dat ttl m) =
              rest @ [(key, \<lparr>data = dat, expiresAt = now + ttl, createdAt = now\<rparr>)]"
      unfolding upd by (simp add: update_new_key)
  }
  {
    assume present: "key \<in> fst ` set rest"
    with k0 have ne: "k0 \<noteq> key" by auto
    from present show "map fst (cache (MemoryCache_set now key dat ttl m)) = map fst rest"
      unfolding upd by (simp add: update_keys)
    show "map_of (cache (MemoryCache_set now key dat ttl m)) =
                (map_of rest)(key \<mapsto> \<lparr>data = dat, expiresAt = now + ttl, createdAt = now\<rparr>)"
      unfolding upd by (simp add: update_conv')
    from k0 ne show "map_of (cache (MemoryCache_set now key dat ttl m)) k0 = None"
      unfolding upd by (simp add: update_conv' map_of_eq_None_iff)
    from present have "length (map fst (AList.update key
        \<lparr>data = dat, expiresAt = now + ttl, createdAt = now\<rparr> rest)) = length (map fst rest)"
      by (simp only: update_keys) simp
    then have "length (AList.update key
        \<lparr>data = dat, expiresAt = now + ttl, createdAt = now\<rparr> rest) = length rest"
      by simp
    with assms(2,3) show "int (length (cache (MemoryCache_set now key dat ttl m))) = maxSize m - 1"
      unfolding upd by simp
  }
qed

lemma set_keys_new:
  assumes "distinct (map fst (cache m))" and "key \<notin> fst ` set (cache m)" and "1 \<le> maxSize m"
  shows "map fst (cache (MemoryCache_set now key dat ttl m)) =
           (if int (length (cache m)) \<ge> maxSize m then tl (map fst (cache m)) @ [key]
            else map fst (cache m) @ [key])"
proof (cases "int (length (cache m)) \<ge> maxSize m")
  case False
  then show ?thesis using assms(2) by (simp add: MemoryCache_set_def update_new_key)
next
  case True
  with assms(3) obtain k0 e0 rest where c: "cache m = (k0, e0) # rest"
    by (cases "cache m") auto
  with assms(1) have "k0 \<notin> fst ` set rest" by auto
  then have d: "AList.delete k0 (cache m) = rest" using c by (simp add: delete_absent)
  from assms(2) c have "key \<notin> fst ` set rest" by auto
  then show ?thesis using c d True
    by (simp add: MemoryCache_set_def update_new_key)
qed

text \<open>
  Inserting new, pairwise distinct keys into a cache that is within its capacity keeps
  the newest \<open>maxSize\<close> keys in insertion order.
\<close>

lemma set_all_keys:
  assumes "distinct (map fst (cache m) @ map call_key calls)" and "1 \<le> maxSize m"
    and "int (length (cache m)) \<le> maxSize m"
  shows "map fst (cache (MemoryCache_set_all calls m)) =
           drop (length (cache m) + length calls - nat (maxSize m))
             (map fst (cache m) @ map call_key calls)"
  using assms
proof (induction calls arbitrary: m)
  case Nil
  then show ?case by (simp add: MemoryCache_set_all_def)
next
  case (Cons c calls)
  obtain now key dat ttl where c: "c = (now, key, dat, ttl)" by (cases c) auto
  let ?m1 = "MemoryCache_set now key dat ttl m"
  have unfold: "MemoryCache_set_all (c # calls) m = MemoryCache_set_all calls ?m1"
    by (simp add: MemoryCache_set_all_def c)
  from Cons.prems(1) c have d0: "distinct (map fst (cache m))"
    and new: "key \<notin> fst ` set (cache m)"
    by auto
  note k1 = set_keys_new [OF d0 new Cons.prems(2), of now dat ttl]
  show ?case
  proof (cases "int (length (cache m)) \<ge> maxSize m")
    case True
    with Cons.prems(3) have full: "int (length (cache m)) = maxSize m" by simp
    with Cons.prems(2) have ne: "cache m \<noteq> []" by auto
    from full have nm: "nat (maxSize m) = length (cache m)" by linarith
    from k1 True have keys1: "map fst (cache ?m1) = tl (map fst (cache m)) @ [key]" by simp
    from arg_cong [OF keys1, of length] have len1: "length (cache ?m1) = length (cache m)"
      using ne by (cases "cache m") simp_all
    have dist1: "distinct (map fst (cache ?m1) @ map call_key calls)"
    proof -
      from ne obtain p rest where pr: "cache m = p # rest" by (cases "cache m") auto
      have "distinct (map fst rest @ key # map call_key calls)"
        using Cons.prems(1) c pr by simp
      then show ?thesis using keys1 pr by simp
    qed
    have "map fst (cache (MemoryCache_set_all calls ?m1)) =
        drop (length (cache ?m1) + length calls - nat (maxSize ?m1))
          (map fst (cache ?m1) @ map call_key calls)"
      by (rule Cons.IH [OF dist1]) (use Cons.prems(2) len1 full in simp_all)
    also have "\<dots> = drop (length calls) (tl (map fst (cache m)) @ key # map call_key calls)"
      using keys1 len1 nm by simp
    also have "\<dots> = drop (Suc (length calls)) (map fst (cache m) @ key # map call_key calls)"
      using ne by (cases "cache m") simp_all
    finally have fin: "map fst (cache (MemoryCache_set_all calls ?m1)) =
        drop (Suc (length calls)) (map fst (cache m) @ key # map call_key calls)" .
    show ?thesis unfolding unfold fin using c nm by simp
  next
    case False
    from k1 False have keys1: "map fst (cache ?m1) = map fst (cache m) @ [key]" by simp
    from arg_cong [OF keys1, of length]
    have len1: "length (cache ?m1) = Suc (length (cache m))" by simp
    have dist1: "distinct (map fst (cache ?m1) @ map call_key calls)"
      using Cons.prems(1) keys1 c by simp
    have "map fst (cache (MemoryCache_set_all calls ?m1)) =
        drop (length (cache ?m1) + length calls - nat (maxSize ?m1))
          (map fst (cache ?m1) @ map call_key calls)"
      by (rule Cons.IH [OF dist1]) (use Cons.prems(2) len1 False in simp_all)
    then show ?thesis using unfold keys1 len1 c by simp
  qed
qed

lemma fill_past_capacity:
  assumes "1 \<le> size0" and "distinct (map call_key calls)" and "int (length calls) = size0 + 1"
  shows "map fst (cache (MemoryCache_set_all calls (MemoryCache_new size0))) = tl (map call_key calls)
       \<and> int (length (cache (MemoryCache_set_all calls (MemoryCache_new size0)))) = size0"
proof -
  let ?m = "MemoryCache_new size0 :: 'a MemoryCache"
  have "map fst (cache (MemoryCache_set_all calls ?m)) =
           drop (length (cache ?m) + length calls - nat (maxSize ?m))
             (map fst (cache ?m) @ map call_key calls)"
    by (rule set_all_keys) (use assms in \<open>simp_all add: MemoryCache_new_def\<close>)
  moreover have "length calls - nat size0 = 1" using assms(1,3) by linarith
  ultimately have k: "map fst (cache (MemoryCache_set_all calls ?m)) = tl (map call_key calls)"
    by (simp add: MemoryCache_new_def drop_Suc)
  from arg_cong [OF k, of length]
  have "length (cache (MemoryCache_set_all calls ?m)) = length calls - 1" by simp
  then show ?thesis using k assms(1,3) by simp
qed

lemma two_of_two_eval:
  "two_of_two = \<lparr>cache = [(''a'', \<lparr>data = Some 1, expiresAt = 1000, createdAt = 0\<rparr>),
                           (''b'', \<lparr>data = Some 2, expiresAt = 1001, createdAt = 1\<rparr>)], maxSize = 2\<rparr>"
  by (simp add: two_of_two_def MemoryCache_set_all_def MemoryCache_set_def MemoryCache_new_def)

text \<open>
  C2, as the code has it, for a map of distinct keys holding exactly \<open>maxSize\<close> entries.
  When the map has a head \<open>k0\<close>: \<open>set\<close> with a key that is not present removes exactly
  the head of the iteration order and appends the new entry at the end. \<open>set\<close> with a key
  that is present removes the head just the same: when the key is the head's own, no other
  entry goes and the key moves to the end with its new entry; when the key is another
  one, the head's entry is evicted and the key's entry is replaced where it stands, which
  leaves \<open>maxSize - 1\<close> entries. When the map is empty, of capacity 0, \<open>set\<close> removes
  nothing and the map holds the one new entry. Inserting \<open>maxSize + 1\<close> distinct keys
  into the empty map of a capacity of at least 1 leaves exactly \<open>maxSize\<close> entries, all keys
  but the first inserted.
\<close>

theorem memory_set_eviction:
  fixes m :: "'v MemoryCache" and calls :: "(int \<times> string \<times> 'v option \<times> int) list"
  assumes "distinct (map fst (cache m))" and "int (length (cache m)) = maxSize m"
  shows "(cache m = (k0, e0) # rest \<longrightarrow>
            (key \<notin> fst ` set (cache m) \<longrightarrow>
               cache (MemoryCache_set now key dat ttl m) =
                 rest @ [(key, \<lparr>data = dat, expiresAt = now + ttl, createdAt = now\<rparr>)])
            \<and> (key = k0 \<longrightarrow>
               cache (MemoryCache_set now key dat ttl m) =
                 rest @ [(key, \<lparr>data = dat, expiresAt = now + ttl, createdAt = now\<rparr>)])
            \<and> (key \<in> fst ` set rest \<longrightarrow>
               map fst (cache (MemoryCache_set now key dat ttl m)) = map fst rest
               \<and> map_of (cache (MemoryCache_set now key dat ttl m)) =
                   (map_of rest)(key \<mapsto> \<lparr>data = dat, expiresAt = now + ttl, createdAt = now\<rparr>)
               \<and> map_of (cache (MemoryCache_set now key dat ttl m)) k0 = None
               \<and> int (length (cache (MemoryCache_set now key dat ttl m))) = maxSize m - 1))
       \<and> (cache m = [] \<longrightarrow>
            cache (MemoryCache_set now key dat ttl m) =
              [(key, \<lparr>data = dat, expiresAt = now + ttl, createdAt = now\<rparr>)])
       \<and> (1 \<le> size0 \<and> distinct (map call_key calls) \<and> int (length calls) = size0 + 1 \<longrightarrow>
            map fst (cache (MemoryCache_set_all calls (MemoryCache_new size0)))
              = tl (map call_key calls)
            \<and> int (length (cache (MemoryCache_set_all calls (MemoryCache_new size0))))
                = size0)"
proof (intro conjI)
  show "cache m = (k0, e0) # rest \<longrightarrow>
            (key \<notin> fst ` set (cache m) \<longrightarrow>
               cache (MemoryCache_set now key dat ttl m) =
                 rest @ [(key, \<lparr>data = dat, expiresAt = now + ttl, createdAt = now\<rparr>)])
            \<and> (key = k0 \<longrightarrow>
               cache (MemoryCache_set now key dat ttl m) =
                 rest @ [(key, \<lparr>data = dat, expiresAt = now + ttl, createdAt = now\<rparr>)])
            \<and> (key \<in> fst ` set rest \<longrightarrow>
               map fst (cache (MemoryCache_set now key dat ttl m)) = map fst rest
               \<and> map_of (cache (MemoryCache_set now key dat ttl m)) =
                   (map_of rest)(key \<mapsto> \<lparr>data = dat, expiresAt = now + ttl, createdAt = now\<rparr>)
               \<and> map_of (cache (MemoryCache_set now key dat ttl m)) k0 = None
               \<and> int (length (cache (MemoryCache_set now key dat ttl m))) = maxSize m - 1)"
  proof
    assume c: "cache m = (k0, e0) # rest"
    then have ne: "cache m \<noteq> []" by simp
    have new: "key \<notin> fst ` set (cache m) \<longrightarrow>
            cache (MemoryCache_set now key dat ttl m) =
              rest @ [(key, \<lparr>data = dat, expiresAt = now + ttl, createdAt = now\<rparr>)]"
      using set_new_at_capacity [OF assms ne, of key now dat ttl] c by simp
    note present = set_present_at_capacity [OF assms c, of key now dat ttl]
    show "(key \<notin> fst ` set (cache m) \<longrightarrow>
               cache (MemoryCache_set now key dat ttl m) =
                 rest @ [(key, \<lparr>data = dat, expiresAt = now + ttl, createdAt = now\<rparr>)])
            \<and> (key = k0 \<longrightarrow>
               cache (MemoryCache_set now key dat ttl m) =
                 rest @ [(key, \<lparr>data = dat, expiresAt = now + ttl, createdAt = now\<rparr>)])
            \<and> (key \<in> fst ` set rest \<longrightarrow>
               map fst (cache (MemoryCache_set now key dat ttl m)) = map fst rest
               \<and> map_of (cache (MemoryCache_set now key dat ttl m)) =
                   (map_of rest)(key \<mapsto> \<lparr>data = dat, expiresAt = now + ttl, createdAt = now\<rparr>)
               \<and> map_of (cache (MemoryCache_set now key dat ttl m)) k0 = None
               \<and> int (length (cache (MemoryCache_set now key dat ttl m))) = maxSize m - 1)"
      by (rule conjI [OF new present])
  qed
  show "cache m = [] \<longrightarrow>
            cache (MemoryCache_set now key dat ttl m) =
              [(key, \<lparr>data = dat, expiresAt = now + ttl, createdAt = now\<rparr>)]"
    by (simp add: MemoryCache_set_def)
  show "1 \<le> size0 \<and> distinct (map call_key calls) \<and> int (length calls) = size0 + 1 \<longrightarrow>
            map fst (cache (MemoryCache_set_all calls (MemoryCache_new size0)))
              = tl (map call_key calls)
            \<and> int (length (cache (MemoryCache_set_all calls (MemoryCache_new size0))))
                = size0"
    using fill_past_capacity [of size0 calls] by blast
qed

theorem memory_set_eviction_witness:
  "cache (MemoryCache_set 5 ''c'' (Some 3) 1000 two_of_two) =
     [(''b'', \<lparr>data = Some 2, expiresAt = 1001, createdAt = 1\<rparr>),
      (''c'', \<lparr>data = Some 3, expiresAt = 1005, createdAt = 5\<rparr>)]
   \<and> cache (MemoryCache_set 5 ''a'' (Some 9) 1000 two_of_two) =
     [(''b'', \<lparr>data = Some 2, expiresAt = 1001, createdAt = 1\<rparr>),
      (''a'', \<lparr>data = Some 9, expiresAt = 1005, createdAt = 5\<rparr>)]
   \<and> map fst (cache (MemoryCache_set 5 ''b'' (Some 9) 1000 two_of_two)) = [''b'']
   \<and> map_of (cache (MemoryCache_set 5 ''b'' (Some 9) 1000 two_of_two)) ''a'' = None
   \<and> int (length (cache (MemoryCache_set 5 ''b'' (Some 9) 1000 two_of_two))) = 1
   \<and> cache (MemoryCache_set 5 ''a'' (Some 1) 1000 (MemoryCache_new 0)) =
     [(''a'', \<lparr>data = Some (1::nat), expiresAt = 1005, createdAt = 5\<rparr>)]
   \<and> map fst (cache (MemoryCache_set_all
        [(0, ''a'', Some 1, 1000), (1, ''b'', Some 2, 1000), (2, ''c'', Some 3, 1000)]
        (MemoryCache_new 2 :: nat MemoryCache))) = [''b'', ''c'']"
proof -
  let ?ea = "\<lparr>data = Some (1::nat), expiresAt = 1000, createdAt = 0\<rparr>"
  let ?eb = "\<lparr>data = Some (2::nat), expiresAt = 1001, createdAt = 1\<rparr>"
  have d: "distinct (map fst (cache two_of_two))" by (simp add: two_of_two_eval)
  have f: "int (length (cache two_of_two)) = maxSize two_of_two" by (simp add: two_of_two_eval)
  have c: "cache two_of_two = (''a'', ?ea) # [(''b'', ?eb)]" by (simp add: two_of_two_eval)
  have d0: "distinct (map fst (cache (MemoryCache_new 0 :: nat MemoryCache)))"
    and f0: "int (length (cache (MemoryCache_new 0 :: nat MemoryCache))) = maxSize (MemoryCache_new 0 :: nat MemoryCache)"
    and c0: "cache (MemoryCache_new 0 :: nat MemoryCache) = []"
    by (simp_all add: MemoryCache_new_def)
  from memory_set_eviction [OF d f, of "''a''" ?ea "[(''b'', ?eb)]" "''c''" 5 "Some 3" 1000 2
        "[(0, ''a'', Some 1, 1000), (1, ''b'', Some 2, 1000), (2, ''c'', Some 3, 1000)]"] c
  have new: "cache (MemoryCache_set 5 ''c'' (Some 3) 1000 two_of_two) =
     [(''b'', ?eb), (''c'', \<lparr>data = Some 3, expiresAt = 1005, createdAt = 5\<rparr>)]"
    and fill: "map fst (cache (MemoryCache_set_all
        [(0, ''a'', Some 1, 1000), (1, ''b'', Some 2, 1000), (2, ''c'', Some 3, 1000)]
        (MemoryCache_new 2 :: nat MemoryCache))) = [''b'', ''c'']"
    by (simp_all add: two_of_two_eval)
  from memory_set_eviction [OF d f, of "''a''" ?ea "[(''b'', ?eb)]" "''a''" 5 "Some 9" 1000] c
  have head: "cache (MemoryCache_set 5 ''a'' (Some 9) 1000 two_of_two) =
     [(''b'', ?eb), (''a'', \<lparr>data = Some 9, expiresAt = 1005, createdAt = 5\<rparr>)]"
    by simp
  from memory_set_eviction [OF d f, of "''a''" ?ea "[(''b'', ?eb)]" "''b''" 5 "Some 9" 1000] c
  have other: "map fst (cache (MemoryCache_set 5 ''b'' (Some 9) 1000 two_of_two)) = [''b'']
     \<and> map_of (cache (MemoryCache_set 5 ''b'' (Some 9) 1000 two_of_two)) ''a'' = None
     \<and> int (length (cache (MemoryCache_set 5 ''b'' (Some 9) 1000 two_of_two))) = 1"
    by (simp add: two_of_two_eval)
  from memory_set_eviction [OF d0 f0, of _ _ _ "''a''" 5 "Some 1" 1000] c0
  have empty: "cache (MemoryCache_set 5 ''a'' (Some 1) 1000 (MemoryCache_new 0)) =
     [(''a'', \<lparr>data = Some (1::nat), expiresAt = 1005, createdAt = 5\<rparr>)]"
    by simp
  from new head other empty fill show ?thesis by simp
qed

text \<open>
  The claim as stated fails: on the full map of capacity 2 holding \<open>a\<close> and \<open>b\<close>, \<open>set\<close>
  with the present key \<open>b\<close> removes the entry of \<open>a\<close>. And on the empty map of capacity 0,
  which holds exactly \<open>maxSize\<close> entries, inserting \<open>maxSize + 1\<close> keys leaves one entry.
\<close>

theorem memory_set_present_key_evicts:
  "map fst (cache two_of_two) = [''a'', ''b''] \<and> int (length (cache two_of_two)) = maxSize two_of_two
   \<and> map fst (cache (MemoryCache_set 5 ''b'' (Some 9) 1000 two_of_two)) = [''b'']
   \<and> maxSize (MemoryCache_new 0 :: nat MemoryCache) = 0
   \<and> map fst (cache (MemoryCache_set 5 ''a'' (Some 1) 1000 (MemoryCache_new 0 :: nat MemoryCache)))
       = [''a'']"
  by (simp add: two_of_two_eval MemoryCache_set_def MemoryCache_new_def)

section \<open>The hybrid cache\<close>

lemma memory_get_null:
  assumes "\<forall>item. map_of (cache m) key = Some item \<longrightarrow> data item = None"
  shows "fst (MemoryCache_get now key m) = None"
  using assms by (auto simp: MemoryCache_get_def split: option.splits)

lemma persistent_get_null:
  assumes "\<forall>item. map_of (items st) key = Some item \<longrightarrow> data item = None"
  shows "fst (PersistentCache_get pf now key st) = None"
  using assms by (auto simp: PersistentCache_get_def split: option.splits)

lemma hybrid_get_null:
  assumes "fst (MemoryCache_get now key (memoryCache h)) = None"
    and "fst (PersistentCache_get pf now key (persistentCache h)) = None"
  shows "fst (HybridCache_get pf now key h) = None
       \<and> stats (snd (HybridCache_get pf now key h)) = (stats h)\<lparr>misses := misses (stats h) + 1\<rparr>"
  using assms by (auto simp: HybridCache_get_def split: prod.splits)

lemma map_of_delete_same: "map_of (AList.delete key al) key = None"
  by (simp add: delete_conv')

lemma items_setMetadata [simp]: "items (setMetadata pf md st) = items st"
  by (simp add: setMetadata_def localStorage_setItem_def Let_def)

lemma items_delete: "items (PersistentCache_delete pf key st) = AList.delete key (items st)"
  by (simp add: PersistentCache_delete_def Let_def localStorage_removeItem_def)

text \<open>A \<open>get\<close> that returns \<open>null\<close> leaves under the key nothing but \<open>null\<close> values.\<close>

lemma memory_get_keeps_null:
  assumes "fst (MemoryCache_get now key m) = None"
  shows "\<forall>item. map_of (cache (snd (MemoryCache_get now key m))) key = Some item
           \<longrightarrow> data item = None"
proof (cases "map_of (cache m) key")
  case None
  then show ?thesis by (simp add: MemoryCache_get_def)
next
  case (Some item)
  show ?thesis
  proof (cases "now > expiresAt item")
    case True
    with Some show ?thesis by (simp add: MemoryCache_get_def map_of_delete_same)
  next
    case False
    with Some assms have "data item = None" by (simp add: MemoryCache_get_def)
    with Some False show ?thesis by (simp add: MemoryCache_get_def update_conv')
  qed
qed

lemma persistent_get_keeps_null:
  assumes "fst (PersistentCache_get pf now key st) = None"
  shows "\<forall>item. map_of (items (snd (PersistentCache_get pf now key st))) key = Some item
           \<longrightarrow> data item = None"
proof (cases "map_of (items st) key")
  case None
  then show ?thesis by (simp add: PersistentCache_get_def)
next
  case (Some parsed)
  show ?thesis
  proof (cases "now > expiresAt parsed")
    case True
    with Some show ?thesis
      by (simp add: PersistentCache_get_def items_delete map_of_delete_same)
  next
    case False
    with Some assms have "data parsed = None" by (simp add: PersistentCache_get_def)
    with Some False show ?thesis by (simp add: PersistentCache_get_def)
  qed
qed

lemma hybrid_get_keeps_null:
  assumes "fst (HybridCache_get pf now key h) = None"
  shows "(\<forall>item. map_of (cache (memoryCache (snd (HybridCache_get pf now key h)))) key = Some item
            \<longrightarrow> data item = None)
       \<and> (\<forall>item. map_of (items (persistentCache (snd (HybridCache_get pf now key h)))) key = Some item
            \<longrightarrow> data item = None)"
proof -
  obtain d m1 where m: "MemoryCache_get now key (memoryCache h) = (d, m1)"
    by (cases "MemoryCache_get now key (memoryCache h)")
  obtain d2 p1 where p: "PersistentCache_get pf now key (persistentCache h) = (d2, p1)"
    by (cases "PersistentCache_get pf now key (persistentCache h)")
  from assms m have d: "d = None"
    by (cases "d = None") (simp_all add: HybridCache_get_def)
  from assms m p d have d2: "d2 = None"
    by (cases "d2 = None") (simp_all add: HybridCache_get_def)
  from m p d d2 have h': "snd (HybridCache_get pf now key h) =
      h\<lparr>memoryCache := m1, persistentCache := p1,
        stats := (stats h)\<lparr>misses := misses (stats h) + 1\<rparr>\<rparr>"
    by (simp add: HybridCache_get_def)
  from memory_get_keeps_null [of now key "memoryCache h"] m d
  have "\<forall>item. map_of (cache m1) key = Some item \<longrightarrow> data item = None" by simp
  moreover from persistent_get_keeps_null [of pf now key "persistentCache h"] p d2
  have "\<forall>item. map_of (items p1) key = Some item \<longrightarrow> data item = None" by simp
  ultimately show ?thesis unfolding h' by simp
qed

lemma durable_null_eval:
  "durable_null =
     \<lparr> memoryCache = \<lparr>cache = [], maxSize = 100\<rparr>,
       persistentCache =
         \<lparr> items = [(''track:1'', \<lparr>data = None, expiresAt = 1000, createdAt = 0\<rparr>)],
           metadata = Some [(''track:1'', \<lparr>expiresAt_meta = 1000, size_meta = 64\<rparr>)],
           setItem_log =
             [WriteItem ''track:1'' \<lparr>data = None, expiresAt = 1000, createdAt = 0\<rparr>,
              WriteMetadata [(''track:1'', \<lparr>expiresAt_meta = 1000, size_meta = 64\<rparr>)]] \<rparr>,
       stats = \<lparr>hits = 0, misses = 0, sets = 0\<rparr> \<rparr>"
  by (simp add: durable_null_def HybridCache_new_def MemoryCache_new_def MAX_ENTRIES_def
        PersistentCache_set_def localStorage_setItem_def setMetadata_def getMetadata_def
        object_assign_eval cleanupIfNeeded_def roomy_def empty_storage_def Let_def)

lemma durable_only_eval:
  "durable_only =
     \<lparr> memoryCache = \<lparr>cache = [], maxSize = 100\<rparr>,
       persistentCache =
         \<lparr> items = [(''track:1'', \<lparr>data = Some 7, expiresAt = 1000, createdAt = 0\<rparr>)],
           metadata = Some [(''track:1'', \<lparr>expiresAt_meta = 1000, size_meta = 64\<rparr>)],
           setItem_log =
             [WriteItem ''track:1'' \<lparr>data = Some 7, expiresAt = 1000, createdAt = 0\<rparr>,
              WriteMetadata [(''track:1'', \<lparr>expiresAt_meta = 1000, size_meta = 64\<rparr>)]] \<rparr>,
       stats = \<lparr>hits = 0, misses = 0, sets = 0\<rparr> \<rparr>"
  by (simp add: durable_only_def HybridCache_new_def MemoryCache_new_def MAX_ENTRIES_def
        PersistentCache_set_def localStorage_setItem_def setMetadata_def getMetadata_def
        object_assign_eval
        cleanupIfNeeded_def roomy_def empty_storage_def Let_def)

lemma null_cached_eval:
  "null_cached =
     \<lparr> memoryCache =
         \<lparr>cache = [(''profile:u'', \<lparr>data = None, expiresAt = 1000, createdAt = 0\<rparr>)], maxSize = 100\<rparr>,
       persistentCache =
         \<lparr> items = [(''profile:u'', \<lparr>data = None, expiresAt = 1000, createdAt = 0\<rparr>)],
           metadata = Some [(''profile:u'', \<lparr>expiresAt_meta = 1000, size_meta = 64\<rparr>)],
           setItem_log =
             [WriteItem ''profile:u'' \<lparr>data = None, expiresAt = 1000, createdAt = 0\<rparr>,
              WriteMetadata [(''profile:u'', \<lparr>expiresAt_meta = 1000, size_meta = 64\<rparr>)]] \<rparr>,
       stats = \<lparr>hits = 0, misses = 0, sets = 1\<rparr> \<rparr>"
  by (simp add: null_cached_def HybridCache_set_def HybridCache_new_def MemoryCache_new_def
        MemoryCache_set_def MAX_ENTRIES_def
        PersistentCache_set_def localStorage_setItem_def setMetadata_def getMetadata_def
        object_assign_eval
        cleanupIfNeeded_def roomy_def empty_storage_def Let_def)

text \<open>
  C9, as the code has it. For a cache key other than \<open>METADATA_KEY\<close>, when the fast tier
  misses: if the durable tier holds an unexpired entry for the key with a value \<open>v\<close> that
  is not \<open>null\<close>, \<open>get\<close> returns \<open>v\<close>, \<open>hits\<close> goes up by one, and the fast tier now holds
  \<open>v\<close> under the key with \<open>expiresAt = now + 5 minutes\<close>, so that a direct read of the
  fast tier up to that time returns \<open>v\<close>; if the read of the durable tier gives \<open>null\<close>
  too (no entry, an expired one, or one holding \<open>null\<close>), \<open>get\<close> returns \<open>null\<close>,
  \<open>misses\<close> goes up by one, and the fast tier is as its own read left it: nothing is
  promoted.
\<close>

theorem hybrid_get_promotes:
  assumes "key \<noteq> METADATA_KEY"
    and "MemoryCache_get now key (memoryCache h) = (None, m1)"
    and "HybridCache_get pf now key h = (r, h')"
  shows "(\<forall>item v. map_of (items (persistentCache h)) key = Some item \<and> \<not> now > expiresAt item
            \<and> data item = Some v \<longrightarrow>
            r = Some v \<and> hits (stats h') = hits (stats h) + 1 \<and> misses (stats h') = misses (stats h)
            \<and> map_of (cache (memoryCache h')) key =
                 Some \<lparr>data = Some v, expiresAt = now + 5 * 60 * 1000, createdAt = now\<rparr>
            \<and> (\<forall>t. t \<le> now + 5 * 60 * 1000 \<longrightarrow>
                  fst (MemoryCache_get t key (memoryCache h')) = Some v))
       \<and> (fst (PersistentCache_get pf now key (persistentCache h)) = None \<longrightarrow>
            r = None \<and> misses (stats h') = misses (stats h) + 1 \<and> hits (stats h') = hits (stats h)
            \<and> memoryCache h' = m1)"
proof (intro conjI allI impI)
  fix item v
  assume a: "map_of (items (persistentCache h)) key = Some item \<and> \<not> now > expiresAt item
            \<and> data item = Some v"
  then have pg: "PersistentCache_get pf now key (persistentCache h) = (Some v, persistentCache h)"
    by (simp add: PersistentCache_get_def)
  from assms(2,3) pg have r: "r = Some v"
    and h': "h' = h\<lparr>memoryCache := MemoryCache_set now key (Some v) (5 * 60 * 1000) m1,
                          persistentCache := persistentCache h,
                          stats := (stats h)\<lparr>hits := hits (stats h) + 1\<rparr>\<rparr>"
    by (auto simp: HybridCache_get_def)
  show "r = Some v" by (rule r)
  show "hits (stats h') = hits (stats h) + 1" by (simp add: h')
  show "misses (stats h') = misses (stats h)" by (simp add: h')
  show e: "map_of (cache (memoryCache h')) key =
                 Some \<lparr>data = Some v, expiresAt = now + 5 * 60 * 1000, createdAt = now\<rparr>"
    by (simp add: h' get_after_set)
  fix t :: int assume "t \<le> now + 5 * 60 * 1000"
  then show "fst (MemoryCache_get t key (memoryCache h')) = Some v"
    using memory_get_fresh [OF e, of t] by simp
next
  assume "fst (PersistentCache_get pf now key (persistentCache h)) = None"
  then obtain p1 where "PersistentCache_get pf now key (persistentCache h) = (None, p1)"
    by (cases "PersistentCache_get pf now key (persistentCache h)") auto
  with assms(2,3) have r: "r = None"
    and h': "h' = h\<lparr>memoryCache := m1, persistentCache := p1,
                            stats := (stats h)\<lparr>misses := misses (stats h) + 1\<rparr>\<rparr>"
    by (auto simp: HybridCache_get_def)
  show "r = None" by (rule r)
  show "misses (stats h') = misses (stats h) + 1" by (simp add: h')
  show "hits (stats h') = hits (stats h)" by (simp add: h')
  show "memoryCache h' = m1" by (simp add: h')
qed

theorem hybrid_get_promotes_witness:
  "fst (HybridCache_get roomy 10 ''track:1'' durable_only) = Some 7
   \<and> hits (stats (snd (HybridCache_get roomy 10 ''track:1'' durable_only))) = 1
   \<and> map_of (cache (memoryCache (snd (HybridCache_get roomy 10 ''track:1'' durable_only)))) ''track:1''
       = Some \<lparr>data = Some 7, expiresAt = 300010, createdAt = 10\<rparr>
   \<and> fst (MemoryCache_get 10 ''track:1''
            (memoryCache (snd (HybridCache_get roomy 10 ''track:1'' durable_only)))) = Some 7
   \<and> fst (HybridCache_get roomy 10 ''track:2'' durable_only) = None
   \<and> misses (stats (snd (HybridCache_get roomy 10 ''track:2'' durable_only))) = 1"
proof -
  have k1: "''track:1'' \<noteq> METADATA_KEY" and k2: "''track:2'' \<noteq> METADATA_KEY"
    by (simp_all add: METADATA_KEY_def)
  have m1: "MemoryCache_get 10 ''track:1'' (memoryCache durable_only) = (None, memoryCache durable_only)"
    and m2: "MemoryCache_get 10 ''track:2'' (memoryCache durable_only) = (None, memoryCache durable_only)"
    by (simp_all add: durable_only_eval MemoryCache_get_def)
  have held: "map_of (items (persistentCache durable_only)) ''track:1''
                = Some \<lparr>data = Some 7, expiresAt = 1000, createdAt = 0\<rparr>
              \<and> \<not> 10 > expiresAt \<lparr>data = Some (7::nat), expiresAt = 1000, createdAt = 0\<rparr>
              \<and> data \<lparr>data = Some (7::nat), expiresAt = 1000, createdAt = 0\<rparr> = Some 7"
    by (simp add: durable_only_eval)
  have absent: "fst (PersistentCache_get roomy 10 ''track:2'' (persistentCache durable_only)) = None"
    by (simp add: durable_only_eval PersistentCache_get_def)
  from hybrid_get_promotes [OF k1 m1 prod.collapse [symmetric], of roomy] held
  have a: "fst (HybridCache_get roomy 10 ''track:1'' durable_only) = Some 7
   \<and> hits (stats (snd (HybridCache_get roomy 10 ''track:1'' durable_only))) = 1
   \<and> map_of (cache (memoryCache (snd (HybridCache_get roomy 10 ''track:1'' durable_only)))) ''track:1''
       = Some \<lparr>data = Some 7, expiresAt = 300010, createdAt = 10\<rparr>
   \<and> fst (MemoryCache_get 10 ''track:1''
            (memoryCache (snd (HybridCache_get roomy 10 ''track:1'' durable_only)))) = Some 7"
    by (simp add: durable_only_eval)
  from hybrid_get_promotes [OF k2 m2 prod.collapse [symmetric], of roomy] absent
  have b: "fst (HybridCache_get roomy 10 ''track:2'' durable_only) = None
   \<and> misses (stats (snd (HybridCache_get roomy 10 ''track:2'' durable_only))) = 1"
    by (simp add: durable_only_eval)
  from a b show ?thesis by simp
qed

text \<open>
  The claim as stated fails: the fast tier misses and the durable tier holds an unexpired
  entry whose value is \<open>null\<close>; \<open>get\<close> returns it, counts a miss and no hit, and writes
  nothing into the fast tier.
\<close>

theorem hybrid_get_null_not_promoted:
  "fst (MemoryCache_get 10 ''track:1'' (memoryCache durable_null)) = None
   \<and> map_of (items (persistentCache durable_null)) ''track:1''
       = Some \<lparr>data = None, expiresAt = 1000, createdAt = 0\<rparr>
   \<and> \<not> (10::int) > 1000
   \<and> HybridCache_get roomy 10 ''track:1'' durable_null =
       (None, durable_null\<lparr>stats := \<lparr>hits = 0, misses = 1, sets = 0\<rparr>\<rparr>)
   \<and> cache (memoryCache (snd (HybridCache_get roomy 10 ''track:1'' durable_null))) = []"
  by (simp add: durable_null_eval HybridCache_get_def MemoryCache_get_def PersistentCache_get_def)

text \<open>
  C10, as the code has it. For a cache key other than \<open>METADATA_KEY\<close>: when every entry
  stored under the key, in the fast tier and in the durable tier, has the value \<open>null\<close>,
  \<open>get\<close> returns \<open>null\<close> and counts a miss, not a hit, and the entries left under the key
  still hold nothing but \<open>null\<close>, so that every later \<open>get\<close> does the same; the result
  of \<open>get\<close> and the counters it leaves are those of \<open>get\<close> after the key has been
  deleted; and the \<open>withCache\<close> wrapper invokes the wrapped function and returns its
  outcome. That is as far as the likeness to an absent entry goes.
\<close>

theorem cached_null_is_a_miss:
  fixes s :: "('v, 'w) program" and args :: 'args
  assumes "key \<noteq> METADATA_KEY"
    and "\<forall>item. map_of (cache (memoryCache h)) key = Some item \<longrightarrow> data item = None"
    and "\<forall>item. map_of (items (persistentCache h)) key = Some item \<longrightarrow> data item = None"
  shows "fst (HybridCache_get pf now key h) = None
       \<and> misses (stats (snd (HybridCache_get pf now key h))) = misses (stats h) + 1
       \<and> hits (stats (snd (HybridCache_get pf now key h))) = hits (stats h)
       \<and> (\<forall>item. map_of (cache (memoryCache (snd (HybridCache_get pf now key h)))) key = Some item
             \<longrightarrow> data item = None)
       \<and> (\<forall>item. map_of (items (persistentCache (snd (HybridCache_get pf now key h)))) key = Some item
             \<longrightarrow> data item = None)
       \<and> fst (HybridCache_get pf now key (HybridCache_delete pf key h))
           = fst (HybridCache_get pf now key h)
       \<and> stats (snd (HybridCache_get pf now key (HybridCache_delete pf key h)))
           = stats (snd (HybridCache_get pf now key h))
       \<and> (globalCache s = h \<and> keyGenerator args = key \<longrightarrow>
            fst (withCache pf fn keyGenerator ttl now t_set args s) = fst (fn args (outside s))
            \<and> invocations (snd (withCache pf fn keyGenerator ttl now t_set args s))
                = invocations s + 1)"
proof -
  have g: "fst (HybridCache_get pf now key h) = None
       \<and> stats (snd (HybridCache_get pf now key h)) = (stats h)\<lparr>misses := misses (stats h) + 1\<rparr>"
    by (rule hybrid_get_null [OF memory_get_null [OF assms(2)] persistent_get_null [OF assms(3)]])
  note keep = hybrid_get_keeps_null [OF conjunct1 [OF g]]
  let ?hd = "HybridCache_delete pf key h"
  have "fst (MemoryCache_get now key (memoryCache ?hd)) = None"
    by (simp add: HybridCache_delete_def MemoryCache_delete_def MemoryCache_get_def
          map_of_delete_same)
  moreover have "fst (PersistentCache_get pf now key (persistentCache ?hd)) = None"
    by (simp add: HybridCache_delete_def PersistentCache_get_def items_delete map_of_delete_same)
  ultimately have gd: "fst (HybridCache_get pf now key ?hd) = None
       \<and> stats (snd (HybridCache_get pf now key ?hd))
           = (stats ?hd)\<lparr>misses := misses (stats ?hd) + 1\<rparr>"
    by (rule hybrid_get_null)
  have sd: "stats ?hd = stats h" by (simp add: HybridCache_delete_def)
  have w: "globalCache s = h \<and> keyGenerator args = key \<longrightarrow>
            fst (withCache pf fn keyGenerator ttl now t_set args s) = fst (fn args (outside s))
            \<and> invocations (snd (withCache pf fn keyGenerator ttl now t_set args s))
                = invocations s + 1"
  proof
    assume a: "globalCache s = h \<and> keyGenerator args = key"
    obtain c1 where c1: "HybridCache_get pf now key h = (None, c1)"
      using g by (cases "HybridCache_get pf now key h") auto
    show "fst (withCache pf fn keyGenerator ttl now t_set args s) = fst (fn args (outside s))
            \<and> invocations (snd (withCache pf fn keyGenerator ttl now t_set args s))
                = invocations s + 1"
      using a c1 by (auto simp: withCache_def Let_def split: prod.splits sum.splits)
  qed
  have counters: "fst (HybridCache_get pf now key h) = None
       \<and> misses (stats (snd (HybridCache_get pf now key h))) = misses (stats h) + 1
       \<and> hits (stats (snd (HybridCache_get pf now key h))) = hits (stats h)
       \<and> fst (HybridCache_get pf now key ?hd) = fst (HybridCache_get pf now key h)
       \<and> stats (snd (HybridCache_get pf now key ?hd)) = stats (snd (HybridCache_get pf now key h))"
    using g gd sd by simp
  from counters keep w show ?thesis by blast
qed

theorem cached_null_is_a_miss_witness:
  "map_of (cache (memoryCache null_cached)) ''profile:u''
     = Some \<lparr>data = None, expiresAt = 1000, createdAt = 0\<rparr>
   \<and> fst (HybridCache_get roomy 10 ''profile:u'' null_cached) = None
   \<and> misses (stats (snd (HybridCache_get roomy 10 ''profile:u'' null_cached))) = 1
   \<and> hits (stats (snd (HybridCache_get roomy 10 ''profile:u'' null_cached))) = 0
   \<and> invocations (snd (withCache roomy search (\<lambda>q. ''profile:'' @ q) 1000 10 11 ''u''
        \<lparr>globalCache = null_cached, outside = 0, invocations = 0\<rparr>)) = 1"
proof -
  have k: "''profile:u'' \<noteq> METADATA_KEY" by (simp add: METADATA_KEY_def)
  have m: "\<forall>item. map_of (cache (memoryCache null_cached)) ''profile:u'' = Some item
             \<longrightarrow> data item = None"
    and p: "\<forall>item. map_of (items (persistentCache null_cached)) ''profile:u'' = Some item
             \<longrightarrow> data item = None"
    by (auto simp: null_cached_eval)
  from cached_null_is_a_miss [OF k m p, of roomy 10
         "\<lparr>globalCache = null_cached, outside = 0, invocations = 0\<rparr>" "\<lambda>q. ''profile:'' @ q" "''u''"
         search 1000 11]
  have "fst (HybridCache_get roomy 10 ''profile:u'' null_cached) = None
   \<and> misses (stats (snd (HybridCache_get roomy 10 ''profile:u'' null_cached)))
       = misses (stats null_cached) + 1
   \<and> hits (stats (snd (HybridCache_get roomy 10 ''profile:u'' null_cached)))
       = hits (stats null_cached)
   \<and> invocations (snd (withCache roomy search (\<lambda>q. ''profile:'' @ q) 1000 10 11 ''u''
        \<lparr>globalCache = null_cached, outside = 0, invocations = 0\<rparr>)) = 1"
    by simp
  then show ?thesis by (simp add: null_cached_eval)
qed

text \<open>
  The claim as stated fails: the cache holding \<open>null\<close> under the key and the cache from
  which the key has been deleted differ at the public interface; \<open>getStats\<close> reports a
  memory size, an entry count and a total size of 1, 1 and 64 for the one and of 0 for
  the other.
\<close>

theorem cached_null_shows_in_getStats:
  "map_of (cache (memoryCache null_cached)) ''profile:u''
     = Some \<lparr>data = None, expiresAt = 1000, createdAt = 0\<rparr>
   \<and> HybridCache_getStats 10 null_cached =
       \<lparr>hits = 0, misses = 0, sets = 1, hitRate = 0, memorySize = 1,
        totalEntries = 1, totalSize = 64, expiredCount = 0\<rparr>
   \<and> HybridCache_getStats 10 (HybridCache_delete roomy ''profile:u'' null_cached) =
       \<lparr>hits = 0, misses = 0, sets = 1, hitRate = 0, memorySize = 0,
        totalEntries = 0, totalSize = 0, expiredCount = 0\<rparr>"
  by (simp add: null_cached_eval HybridCache_getStats_def PersistentCache_getStats_def
        MemoryCache_size_def HybridCache_delete_def MemoryCache_delete_def
        PersistentCache_delete_def localStorage_removeItem_def setMetadata_def
        localStorage_setItem_def getMetadata_def roomy_def Let_def)

section \<open>The wrapper\<close>

lemma hybrid_get_sets: "sets (stats (snd (HybridCache_get pf now key h))) = sets (stats h)"
  by (simp add: HybridCache_get_def split: prod.splits)

lemma withCache_second_call:
  fixes s :: "('v, 'w) program" and args :: 'args
  assumes miss: "fst (HybridCache_get pf t1 (keyGenerator args) (globalCache s)) = None"
    and ok: "fn args (outside s) = (Inr (Some v), w)"
    and first: "withCache pf fn keyGenerator ttl t1 t1' args s = (r1, s1)"
    and fresh: "t2 \<le> t1' + min ttl (5 * 60 * 1000)"
    and second: "withCache pf fn keyGenerator ttl t2 t2' args s1 = (r2, s2)"
  shows "r1 = Inr (Some v) \<and> invocations s1 = invocations s + 1
       \<and> r2 = Inr (Some v) \<and> invocations s2 = invocations s + 1 \<and> outside s2 = w
       \<and> hits (stats (globalCache s2)) = hits (stats (globalCache s1)) + 1"
proof -
  let ?key = "keyGenerator args"
  obtain c1 where c1: "HybridCache_get pf t1 ?key (globalCache s) = (None, c1)"
    using miss by (cases "HybridCache_get pf t1 ?key (globalCache s)") auto
  from first c1 ok have r1: "r1 = Inr (Some v)"
    and s1: "s1 = s\<lparr>globalCache := HybridCache_set pf t1' ?key (Some v) ttl c1,
                     outside := w, invocations := invocations s + 1\<rparr>"
    by (simp_all add: withCache_def Let_def)
  let ?m = "memoryCache (globalCache s1)"
  have e: "map_of (cache ?m) ?key =
     Some \<lparr>data = Some v, expiresAt = t1' + min ttl (5 * 60 * 1000), createdAt = t1'\<rparr>"
    by (simp add: s1 HybridCache_set_def get_after_set)
  with fresh have mg: "MemoryCache_get t2 ?key ?m =
      (Some v, ?m\<lparr>cache := AList.update ?key
           \<lparr>data = Some v, expiresAt = t1' + min ttl (5 * 60 * 1000), createdAt = t1'\<rparr>
           (AList.delete ?key (cache ?m))\<rparr>)"
    by (simp add: MemoryCache_get_def)
  then have hg: "fst (HybridCache_get pf t2 ?key (globalCache s1)) = Some v"
    and hs: "stats (snd (HybridCache_get pf t2 ?key (globalCache s1))) =
        (stats (globalCache s1))\<lparr>hits := hits (stats (globalCache s1)) + 1\<rparr>"
    by (simp_all add: HybridCache_get_def)
  then obtain c2 where c2: "HybridCache_get pf t2 ?key (globalCache s1) = (Some v, c2)"
    and c2s: "stats c2 = (stats (globalCache s1))\<lparr>hits := hits (stats (globalCache s1)) + 1\<rparr>"
    by (cases "HybridCache_get pf t2 ?key (globalCache s1)") auto
  from second c2 have r2: "r2 = Inr (Some v)" and s2: "s2 = s1\<lparr>globalCache := c2\<rparr>"
    by (simp_all add: withCache_def Let_def)
  from r1 s1 r2 s2 c2s show ?thesis by simp
qed

lemma withCache_rethrows:
  fixes s0 :: "('v, 'w) program" and args :: 'args
  assumes miss: "fst (HybridCache_get pf t3 (keyGenerator args) (globalCache s0)) = None"
    and failure: "fn args (outside s0) = (Inl e, w0)"
    and call: "withCache pf fn keyGenerator ttl t3 t3' args s0 = (r3, s3)"
  shows "r3 = Inl e
       \<and> s3 = s0\<lparr>globalCache := snd (HybridCache_get pf t3 (keyGenerator args) (globalCache s0)),
                  outside := w0, invocations := invocations s0 + 1\<rparr>
       \<and> sets (stats (globalCache s3)) = sets (stats (globalCache s0))
       \<and> fst (HybridCache_get pf t4 (keyGenerator args) (globalCache s3)) = None"
proof -
  let ?key = "keyGenerator args"
  let ?c1 = "snd (HybridCache_get pf t3 ?key (globalCache s0))"
  obtain c1 where c1: "HybridCache_get pf t3 ?key (globalCache s0) = (None, c1)"
    using miss by (cases "HybridCache_get pf t3 ?key (globalCache s0)") auto
  then have snd_c1: "?c1 = c1" by simp
  from call failure c1 have r3: "r3 = Inl e"
    and "s3 = s0\<lparr>globalCache := c1, outside := w0, invocations := invocations s0 + 1\<rparr>"
    by (simp_all add: withCache_def Let_def)
  then have s3: "s3 = s0\<lparr>globalCache := ?c1, outside := w0, invocations := invocations s0 + 1\<rparr>"
    by (simp only: snd_c1)
  note keep = hybrid_get_keeps_null [OF miss]
  have again: "fst (HybridCache_get pf t4 ?key ?c1) = None"
    by (rule conjunct1 [OF hybrid_get_null
          [OF memory_get_null [OF conjunct1 [OF keep]] persistent_get_null [OF conjunct2 [OF keep]]]])
  from r3 s3 again show ?thesis by (simp add: hybrid_get_sets)
qed

text \<open>
  C3, as the code has it. For a cache key other than \<open>METADATA_KEY\<close>: when the first call
  of the wrapped operation misses the cache and the underlying operation resolves to a
  value \<open>v\<close> that is not \<open>null\<close>, a second call with the same arguments, made in the
  state the first call left and no later than \<open>min(ttl, 5 minutes)\<close> after the first call
  stored its result, returns \<open>v\<close> from the cache: the underlying operation has been
  invoked exactly once over the two calls. Whenever the cache misses and the underlying
  operation throws, the wrapper throws the same error and writes nothing to the cache:
  the cache is as the lookup left it, and a lookup of the key still misses.
\<close>

theorem withCache_invokes_once:
  fixes s s0 :: "('v, 'w) program" and args :: 'args
  assumes "keyGenerator args \<noteq> METADATA_KEY"
  shows "(fst (HybridCache_get pf t1 (keyGenerator args) (globalCache s)) = None
           \<and> fn args (outside s) = (Inr (Some v), w)
           \<and> withCache pf fn keyGenerator ttl t1 t1' args s = (r1, s1)
           \<and> t2 \<le> t1' + min ttl (5 * 60 * 1000)
           \<and> withCache pf fn keyGenerator ttl t2 t2' args s1 = (r2, s2) \<longrightarrow>
           r1 = Inr (Some v) \<and> invocations s1 = invocations s + 1
           \<and> r2 = Inr (Some v) \<and> invocations s2 = invocations s + 1 \<and> outside s2 = w
           \<and> hits (stats (globalCache s2)) = hits (stats (globalCache s1)) + 1)
       \<and> (fst (HybridCache_get pf t3 (keyGenerator args) (globalCache s0)) = None
           \<and> fn args (outside s0) = (Inl e, w0)
           \<and> withCache pf fn keyGenerator ttl t3 t3' args s0 = (r3, s3) \<longrightarrow>
           r3 = Inl e
           \<and> s3 = s0\<lparr>globalCache := snd (HybridCache_get pf t3 (keyGenerator args) (globalCache s0)),
                      outside := w0, invocations := invocations s0 + 1\<rparr>
           \<and> sets (stats (globalCache s3)) = sets (stats (globalCache s0))
           \<and> fst (HybridCache_get pf t4 (keyGenerator args) (globalCache s3)) = None)"
proof (intro conjI impI)
  assume a: "fst (HybridCache_get pf t1 (keyGenerator args) (globalCache s)) = None
           \<and> fn args (outside s) = (Inr (Some v), w)
           \<and> withCache pf fn keyGenerator ttl t1 t1' args s = (r1, s1)
           \<and> t2 \<le> t1' + min ttl (5 * 60 * 1000)
           \<and> withCache pf fn keyGenerator ttl t2 t2' args s1 = (r2, s2)"
  then have "r1 = Inr (Some v) \<and> invocations s1 = invocations s + 1
       \<and> r2 = Inr (Some v) \<and> invocations s2 = invocations s + 1 \<and> outside s2 = w
       \<and> hits (stats (globalCache s2)) = hits (stats (globalCache s1)) + 1"
    by (intro withCache_second_call [where pf = pf and fn = fn and keyGenerator = keyGenerator
          and args = args and ttl = ttl and ?t1.0 = t1 and t1' = t1' and ?t2.0 = t2 and t2' = t2'])
       simp_all
  then show "r1 = Inr (Some v)" "invocations s1 = invocations s + 1" "r2 = Inr (Some v)"
    "invocations s2 = invocations s + 1" "outside s2 = w"
    "hits (stats (globalCache s2)) = hits (stats (globalCache s1)) + 1"
    by simp_all
next
  assume a: "fst (HybridCache_get pf t3 (keyGenerator args) (globalCache s0)) = None
           \<and> fn args (outside s0) = (Inl e, w0)
           \<and> withCache pf fn keyGenerator ttl t3 t3' args s0 = (r3, s3)"
  then have b: "r3 = Inl e
       \<and> s3 = s0\<lparr>globalCache := snd (HybridCache_get pf t3 (keyGenerator args) (globalCache s0)),
                  outside := w0, invocations := invocations s0 + 1\<rparr>
       \<and> sets (stats (globalCache s3)) = sets (stats (globalCache s0))
       \<and> fst (HybridCache_get pf t4 (keyGenerator args) (globalCache s3)) = None"
    by (intro withCache_rethrows [where fn = fn and ttl = ttl and t3' = t3']) simp_all
  from b show "r3 = Inl e" by (rule conjunct1)
  from b show "s3 = s0\<lparr>globalCache := snd (HybridCache_get pf t3 (keyGenerator args) (globalCache s0)),
                  outside := w0, invocations := invocations s0 + 1\<rparr>"
    by (rule conjunct2 [THEN conjunct1])
  from b show "sets (stats (globalCache s3)) = sets (stats (globalCache s0))"
    by (rule conjunct2 [THEN conjunct2, THEN conjunct1])
  from b show "fst (HybridCache_get pf t4 (keyGenerator args) (globalCache s3)) = None"
    by (rule conjunct2 [THEN conjunct2, THEN conjunct2])
qed

lemma start_get:
  "HybridCache_get pf t key (globalCache start) =
     (None, (globalCache start)\<lparr>stats := \<lparr>hits = 0, misses = 1, sets = 0\<rparr>\<rparr>)"
  by (simp add: start_def HybridCache_get_def HybridCache_new_def MemoryCache_new_def
        MemoryCache_get_def PersistentCache_get_def empty_storage_def)

theorem withCache_invokes_once_witness:
  "fst (withCache roomy search_once search_key SEARCH_RESULTS 0 1 ''abba'' start) = Inr (Some 4)
   \<and> fst (withCache roomy search_once search_key SEARCH_RESULTS 2 3 ''abba''
        (snd (withCache roomy search_once search_key SEARCH_RESULTS 0 1 ''abba'' start)))
       = Inr (Some 4)
   \<and> invocations (snd (withCache roomy search_once search_key SEARCH_RESULTS 2 3 ''abba''
        (snd (withCache roomy search_once search_key SEARCH_RESULTS 0 1 ''abba'' start)))) = 1
   \<and> fst (withCache roomy search_down search_key SEARCH_RESULTS 2 3 ''abba'' start) = Inl down
   \<and> sets (stats (globalCache
        (snd (withCache roomy search_down search_key SEARCH_RESULTS 2 3 ''abba'' start)))) = 0
   \<and> fst (HybridCache_get roomy 4 (search_key ''abba'') (globalCache
        (snd (withCache roomy search_down search_key SEARCH_RESULTS 2 3 ''abba'' start)))) = None"
proof -
  have k: "search_key ''abba'' \<noteq> METADATA_KEY" by (simp add: search_key_def METADATA_KEY_def)
  have miss: "fst (HybridCache_get roomy t (search_key ''abba'') (globalCache start)) = None" for t
    by (simp add: start_get)
  have ok: "search_once ''abba'' (outside start) = (Inr (Some 4), 1)"
    by (simp add: search_once_def start_def)
  have fresh: "(2::int) \<le> 1 + min SEARCH_RESULTS (5 * 60 * 1000)"
    by (simp add: SEARCH_RESULTS_def)
  have thrown: "search_down ''abba'' (outside start) = (Inl down, 1)"
    by (simp add: search_down_def start_def)
  have st: "invocations start = 0" "sets (stats (globalCache start)) = 0"
    by (simp_all add: start_def HybridCache_new_def)
  from withCache_invokes_once
         [where keyGenerator = search_key and args = "''abba''" and fn = search_once and pf = roomy
            and s = start and ttl = SEARCH_RESULTS and ?t1.0 = 0 and t1' = 1 and ?t2.0 = 2
            and t2' = 3 and v = 4 and w = 1
            and ?r1.0 = "fst (withCache roomy search_once search_key SEARCH_RESULTS 0 1 ''abba'' start)"
            and ?s1.0 = "snd (withCache roomy search_once search_key SEARCH_RESULTS 0 1 ''abba'' start)"
            and ?r2.0 = "fst (withCache roomy search_once search_key SEARCH_RESULTS 2 3 ''abba''
               (snd (withCache roomy search_once search_key SEARCH_RESULTS 0 1 ''abba'' start)))"
            and ?s2.0 = "snd (withCache roomy search_once search_key SEARCH_RESULTS 2 3 ''abba''
               (snd (withCache roomy search_once search_key SEARCH_RESULTS 0 1 ''abba'' start)))",
          OF k] miss [of 0] ok fresh
  have once: "fst (withCache roomy search_once search_key SEARCH_RESULTS 0 1 ''abba'' start) = Inr (Some 4)
   \<and> fst (withCache roomy search_once search_key SEARCH_RESULTS 2 3 ''abba''
        (snd (withCache roomy search_once search_key SEARCH_RESULTS 0 1 ''abba'' start)))
       = Inr (Some 4)
   \<and> invocations (snd (withCache roomy search_once search_key SEARCH_RESULTS 2 3 ''abba''
        (snd (withCache roomy search_once search_key SEARCH_RESULTS 0 1 ''abba'' start))))
       = invocations start + 1"
    by simp
  note thrown_case = withCache_invokes_once
         [where keyGenerator = search_key and args = "''abba''" and fn = search_down and pf = roomy
            and ?s0.0 = start and ttl = SEARCH_RESULTS and ?t3.0 = 2 and t3' = 3 and ?t4.0 = 4
            and e = down and ?w0.0 = 1,
          OF k, THEN conjunct2, THEN mp,
          OF conjI [OF miss [of 2] conjI [OF thrown prod.collapse [symmetric]]]]
  have rethrown: "fst (withCache roomy search_down search_key SEARCH_RESULTS 2 3 ''abba'' start) = Inl down
   \<and> sets (stats (globalCache
        (snd (withCache roomy search_down search_key SEARCH_RESULTS 2 3 ''abba'' start))))
       = sets (stats (globalCache start))
   \<and> fst (HybridCache_get roomy 4 (search_key ''abba'') (globalCache
        (snd (withCache roomy search_down search_key SEARCH_RESULTS 2 3 ''abba'' start)))) = None"
    by (intro conjI)
       (rule thrown_case [THEN conjunct1],
        rule thrown_case [THEN conjunct2, THEN conjunct2, THEN conjunct1],
        rule thrown_case [THEN conjunct2, THEN conjunct2, THEN conjunct2])
  from once rethrown show ?thesis by (simp add: st)
qed

text \<open>
  The claim as stated fails twice. An operation that resolves to \<open>null\<close> is invoked again
  by a second call made at once; and with a ttl of 10 minutes on a storage that refuses
  every write, a second call after 6 minutes 40 seconds invokes the operation again.
\<close>

theorem withCache_invokes_twice:
  "fst (withCache roomy search_null search_key SEARCH_RESULTS 0 1 ''abba'' start) = Inr None
   \<and> invocations (snd (withCache roomy search_null search_key SEARCH_RESULTS 2 3 ''abba''
        (snd (withCache roomy search_null search_key SEARCH_RESULTS 0 1 ''abba'' start)))) = 2
   \<and> fst (withCache exhausted search search_key 600000 0 1 ''abba'' start) = Inr (Some 4)
   \<and> invocations (snd (withCache exhausted search search_key 600000 400000 400001 ''abba''
        (snd (withCache exhausted search search_key 600000 0 1 ''abba'' start)))) = 2"
proof -
  have a: "withCache roomy search_null search_key SEARCH_RESULTS 0 1 ''abba'' start =
      (Inr None,
       start\<lparr>globalCache := HybridCache_set roomy 1 ''search:abba'' None SEARCH_RESULTS
                 ((globalCache start)\<lparr>stats := \<lparr>hits = 0, misses = 1, sets = 0\<rparr>\<rparr>),
             outside := 1, invocations := 1\<rparr>)"
    by (simp add: withCache_def start_get search_key_def search_null_def Let_def)
      (simp add: start_def)
  have b: "fst (HybridCache_get roomy 2 ''search:abba''
       (HybridCache_set roomy 1 ''search:abba'' None SEARCH_RESULTS
                 ((globalCache start)\<lparr>stats := \<lparr>hits = 0, misses = 1, sets = 0\<rparr>\<rparr>))) = None"
    by (simp add: HybridCache_get_def HybridCache_set_def MemoryCache_set_def MemoryCache_get_def
        PersistentCache_get_def PersistentCache_set_def localStorage_setItem_def
        setMetadata_def getMetadata_def object_assign_eval cleanupIfNeeded_def roomy_def
        start_def HybridCache_new_def MemoryCache_new_def empty_storage_def SEARCH_RESULTS_def
        MAX_ENTRIES_def Let_def)
  have c: "withCache exhausted search search_key 600000 0 1 ''abba'' start =
      (Inr (Some (length ''abba'')),
       start\<lparr>globalCache := HybridCache_set exhausted 1 ''search:abba'' (Some (length ''abba'')) 600000
                 ((globalCache start)\<lparr>stats := \<lparr>hits = 0, misses = 1, sets = 0\<rparr>\<rparr>),
             outside := 1, invocations := 1\<rparr>)"
    by (simp add: withCache_def start_get search_key_def search_def Let_def)
      (simp add: start_def)
  have d: "fst (HybridCache_get exhausted 400000 ''search:abba''
       (HybridCache_set exhausted 1 ''search:abba'' (Some (length ''abba'')) 600000
                 ((globalCache start)\<lparr>stats := \<lparr>hits = 0, misses = 1, sets = 0\<rparr>\<rparr>))) = None"
    by (simp add: HybridCache_get_def HybridCache_set_def MemoryCache_set_def MemoryCache_get_def
        PersistentCache_get_def PersistentCache_set_def PersistentCache_cleanup_def
        localStorage_setItem_def
        setMetadata_def getMetadata_def object_assign_eval exhausted_def
        start_def HybridCache_new_def MemoryCache_new_def empty_storage_def
        MAX_ENTRIES_def Let_def)
  show ?thesis
    unfolding a c using b d
    by (auto simp: withCache_def Let_def search_key_def search_null_def search_def
          split: prod.splits)
qed

section \<open>The persistent cache\<close>

lemma evict_count_20: "evict_count = 20"
  by (simp add: evict_count_def MAX_ENTRIES_def)






lemma old_stored_eval:
  "old_stored =
     \<lparr> items = [(''old'', \<lparr>data = Some 1, expiresAt = 10, createdAt = 0\<rparr>)],
       metadata = Some [(''old'', \<lparr>expiresAt_meta = 10, size_meta = 64\<rparr>)],
       setItem_log =
         [WriteItem ''old'' \<lparr>data = Some 1, expiresAt = 10, createdAt = 0\<rparr>,
          WriteMetadata [(''old'', \<lparr>expiresAt_meta = 10, size_meta = 64\<rparr>)]] \<rparr>"
  by (simp add: old_stored_def PersistentCache_set_def localStorage_setItem_def setMetadata_def
        getMetadata_def object_assign_eval cleanupIfNeeded_def one_slot_def empty_storage_def
        MAX_ENTRIES_def Let_def)






text \<open>
  C4 does not hold of the code. From the empty storage, \<open>set('old', 1, 10)\<close> at time 0
  leaves the index consistent. On a storage with room for one entry, \<open>set('new', 2, 1000)\<close>
  at time 100 is refused for quota, \<open>cleanup()\<close> removes the expired \<open>old\<close>, and the retry
  stores \<open>new\<close>; the retry path never writes the metadata record, so \<open>new\<close> is in the
  durable medium and not in the metadata index.
\<close>

theorem quota_retry_leaves_entry_unindexed:
  "index_consistent empty_storage \<and> index_consistent old_stored
   \<and> map_of (items (PersistentCache_set one_slot 100 ''new'' (Some 2) 1000 old_stored)) ''new''
       = Some \<lparr>data = Some 2, expiresAt = 1100, createdAt = 100\<rparr>
   \<and> map_of (getMetadata (PersistentCache_set one_slot 100 ''new'' (Some 2) 1000 old_stored)) ''new''
       = None
   \<and> \<not> index_consistent (PersistentCache_set one_slot 100 ''new'' (Some 2) 1000 old_stored)"
proof -
  have "PersistentCache_set one_slot 100 ''new'' (Some 2) 1000 old_stored =
      \<lparr> items = [(''new'', \<lparr>data = Some 2, expiresAt = 1100, createdAt = 100\<rparr>)],
        metadata = Some [],
        setItem_log = setItem_log old_stored @
         [WriteItem ''new'' \<lparr>data = Some 2, expiresAt = 1100, createdAt = 100\<rparr>,
          WriteMetadata [],
          WriteItem ''new'' \<lparr>data = Some 2, expiresAt = 1100, createdAt = 100\<rparr>] \<rparr>"
    by (simp add: PersistentCache_set_def PersistentCache_cleanup_def old_stored_eval
          getMetadata_def setMetadata_def localStorage_setItem_def localStorage_removeItem_def
          one_slot_def Let_def)
  then show ?thesis
    by (simp add: index_consistent_def getMetadata_def old_stored_eval empty_storage_def)
qed

lemma fold_delete_items:
  "items (fold (\<lambda>(key, meta) s. PersistentCache_delete pf key s) victims st) =
     filter (\<lambda>(k, item). k \<notin> set (map fst victims)) (items st)"
proof (induction victims arbitrary: st)
  case Nil
  then show ?case by simp
next
  case (Cons p victims)
  obtain key meta where p: "p = (key, meta)" by (cases p)
  have "items (fold (\<lambda>(key, meta) s. PersistentCache_delete pf key s) (p # victims) st)
      = filter (\<lambda>(k, item). k \<notin> set (map fst victims))
          (filter (\<lambda>(k, item). key \<noteq> k) (items st))"
    using p by (simp add: Cons.IH items_delete AList.delete_eq)
  also have "\<dots> = filter (\<lambda>(k, item). k \<notin> set (map fst (p # victims))) (items st)"
    using p by (auto intro!: filter_cong)
  finally show ?case .
qed

lemma getMetadata_delete:
  assumes "\<forall>s md. quota_ok pf s (WriteMetadata md)"
  shows "getMetadata (PersistentCache_delete pf key st) = AList.delete key (getMetadata st)"
  using assms
  by (simp add: PersistentCache_delete_def Let_def setMetadata_def localStorage_setItem_def
        localStorage_removeItem_def getMetadata_def)

lemma fold_delete_metadata:
  assumes "\<forall>s md. quota_ok pf s (WriteMetadata md)"
  shows "getMetadata (fold (\<lambda>(key, meta) s. PersistentCache_delete pf key s) victims st) =
     filter (\<lambda>(k, meta). k \<notin> set (map fst victims)) (getMetadata st)"
proof (induction victims arbitrary: st)
  case Nil
  then show ?case by simp
next
  case (Cons p victims)
  obtain key meta where p: "p = (key, meta)" by (cases p)
  have "getMetadata (fold (\<lambda>(key, meta) s. PersistentCache_delete pf key s) (p # victims) st)
      = filter (\<lambda>(k, meta). k \<notin> set (map fst victims))
          (filter (\<lambda>(k, meta). key \<noteq> k) (getMetadata st))"
    using p by (simp add: Cons.IH getMetadata_delete [OF assms] AList.delete_eq)
  also have "\<dots> = filter (\<lambda>(k, meta). k \<notin> set (map fst (p # victims))) (getMetadata st)"
    using p by (auto intro!: filter_cong)
  finally show ?case .
qed

text \<open>Every record \<open>_cleanupIfNeeded\<close> picks expires no later than every record it leaves.\<close>

lemma entries_oldest:
  assumes "v \<in> set (cleanup_entries md)" and "r \<in> set md" and "r \<notin> set (cleanup_entries md)"
  shows "expiresAt_meta (snd v) \<le> expiresAt_meta (snd r)"
proof -
  let ?f = "\<lambda>(key, meta). expiresAt_meta meta :: int"
  let ?xs = "sort_key ?f md"
  have "sorted (map ?f (take evict_count ?xs @ drop evict_count ?xs))" by simp
  then have le: "\<forall>x \<in> set (take evict_count ?xs). \<forall>y \<in> set (drop evict_count ?xs). ?f x \<le> ?f y"
    unfolding map_append sorted_append by auto
  have "r \<in> set (take evict_count ?xs @ drop evict_count ?xs)" using assms(2) by simp
  with assms(3) have "r \<in> set (drop evict_count ?xs)"
    unfolding set_append cleanup_entries_def by blast
  with le assms(1) have "?f v \<le> ?f r" unfolding cleanup_entries_def by blast
  then show ?thesis by (simp add: case_prod_beta)
qed

lemma crowded_metadata:
  "getMetadata (crowded n) =
     map (\<lambda>i. (key_of i, \<lparr>expiresAt_meta = int i, size_meta = 64\<rparr>)) [0..<n]"
  by (simp add: crowded_def getMetadata_def)

lemma crowded_entries:
  assumes "20 \<le> n"
  shows "cleanup_entries (getMetadata (crowded n)) =
     map (\<lambda>i. (key_of i, \<lparr>expiresAt_meta = int i, size_meta = 64\<rparr>)) [0..<20]"
proof -
  let ?md = "getMetadata (crowded n)"
  have "map (\<lambda>(key, meta). expiresAt_meta meta) ?md = map int [0..<n]"
    by (simp add: crowded_metadata)
  moreover have "sorted (map int [0..<n])"
    by (simp add: sorted_map sorted_wrt_iff_nth_less)
  ultimately have "sort_key (\<lambda>(key, meta). expiresAt_meta meta) ?md = ?md"
    by (simp add: sort_key_id_if_sorted)
  then show ?thesis
    using assms
    by (simp add: cleanup_entries_def evict_count_20 crowded_metadata take_map
          del: upt_rec_numeral)
qed

lemma key_of_inj: "key_of i = key_of j \<longleftrightarrow> i = j"
proof
  assume "key_of i = key_of j"
  then have "length (key_of i) = length (key_of j)" by simp
  then show "i = j" by (simp add: key_of_def)
qed simp

lemma crowded_length: "length (getMetadata (crowded n)) = n"
  by (simp add: crowded_metadata)

lemma crowded_entry_keys:
  assumes "20 \<le> n"
  shows "set (map fst (cleanup_entries (getMetadata (crowded n)))) = key_of ` {0..<20}"
  unfolding crowded_entries [OF assms] by (simp add: image_image del: upt_rec_numeral)

lemma crowded_entry_iff:
  assumes "20 \<le> n"
  shows "(key_of i, \<lparr>expiresAt_meta = int i, size_meta = 64\<rparr>)
           \<in> set (cleanup_entries (getMetadata (crowded n))) \<longleftrightarrow> i < 20"
  unfolding crowded_entries [OF assms] by (auto simp: key_of_inj simp del: upt_rec_numeral)

lemma crowded_record:
  assumes "i < n"
  shows "(key_of i, \<lparr>expiresAt_meta = int i, size_meta = 64\<rparr>) \<in> set (getMetadata (crowded n))"
  unfolding crowded_metadata using assms by auto

lemma crowded_item:
  assumes "i < n"
  shows "(key_of i, \<lparr>data = Some i, expiresAt = int i, createdAt = 0\<rparr>) \<in> set (items (crowded n))"
  unfolding crowded_def using assms by auto

lemma kept_indices:
  assumes "20 \<le> n"
  shows "filter (\<lambda>i. key_of i \<notin> key_of ` {0..<20}) [0..<n] = [20..<n]"
proof -
  have split: "[0..<n] = [0..<20] @ [20..<n]"
    using upt_add_eq_append [of 0 20 "n - 20"] assms by simp
  show ?thesis
    unfolding split filter_append
    by (auto simp: key_of_inj filter_empty_conv filter_id_conv simp del: upt_rec_numeral)
qed

lemma crowded_items_kept:
  assumes "20 \<le> n"
  shows "map fst (filter (\<lambda>(k, item). k \<notin> key_of ` {0..<20}) (items (crowded n)))
           = map key_of [20..<n]"
  using kept_indices [OF assms]
  by (simp add: crowded_def filter_map comp_def del: upt_rec_numeral)

lemma crowded_metadata_kept:
  assumes "20 \<le> n"
  shows "map fst (filter (\<lambda>(k, meta). k \<notin> key_of ` {0..<20}) (getMetadata (crowded n)))
           = map key_of [20..<n]"
  using kept_indices [OF assms]
  by (simp add: crowded_metadata filter_map comp_def del: upt_rec_numeral)

text \<open>
  C6, as the code has it. Whenever the metadata index tracks more than \<open>MAX_ENTRIES\<close>
  keys, \<open>_cleanupIfNeeded\<close> sorts the metadata records by \<open>expiresAt\<close> ascending and
  deletes the first \<open>\<lfloor>0.2 \<times> MAX_ENTRIES\<rfloor> = 20\<close> of them, whatever the time: every deleted
  record expires no later than every record kept, the entries of the deleted keys leave
  the durable medium and no other entry does, and when the metadata writes fit the quota
  the index loses exactly those keys.
\<close>

theorem cleanupIfNeeded_evicts_oldest:
  assumes "length (getMetadata st) > MAX_ENTRIES"
  shows "cleanup_entries (getMetadata st) =
           take 20 (sort_key (\<lambda>(key, meta). expiresAt_meta meta) (getMetadata st))
       \<and> length (cleanup_entries (getMetadata st)) = MAX_ENTRIES * 20 div 100
       \<and> (\<forall>v \<in> set (cleanup_entries (getMetadata st)). \<forall>r \<in> set (getMetadata st).
             r \<notin> set (cleanup_entries (getMetadata st)) \<longrightarrow>
             expiresAt_meta (snd v) \<le> expiresAt_meta (snd r))
       \<and> items (cleanupIfNeeded pf st) =
           filter (\<lambda>(k, item). k \<notin> set (map fst (cleanup_entries (getMetadata st)))) (items st)
       \<and> ((\<forall>s md. quota_ok pf s (WriteMetadata md)) \<longrightarrow>
            getMetadata (cleanupIfNeeded pf st) =
              filter (\<lambda>(k, meta). k \<notin> set (map fst (cleanup_entries (getMetadata st))))
                (getMetadata st))"
proof -
  have a: "cleanup_entries (getMetadata st) =
           take 20 (sort_key (\<lambda>(key, meta). expiresAt_meta meta) (getMetadata st))"
    by (simp add: cleanup_entries_def evict_count_20)
  have b: "length (cleanup_entries (getMetadata st)) = MAX_ENTRIES * 20 div 100"
    using assms by (simp add: a MAX_ENTRIES_def)
  have run: "cleanupIfNeeded pf st =
      fold (\<lambda>(key, meta) s. PersistentCache_delete pf key s) (cleanup_entries (getMetadata st)) st"
    using assms by (simp add: cleanupIfNeeded_def Let_def)
  show ?thesis
    using a b entries_oldest [of _ "getMetadata st"]
    by (auto simp: run fold_delete_items fold_delete_metadata simp del: map_eq_conv)
qed

theorem cleanupIfNeeded_evicts_oldest_witness:
  "length (getMetadata (crowded 101)) > MAX_ENTRIES
   \<and> length (cleanup_entries (getMetadata (crowded 101))) = 20
   \<and> map fst (items (cleanupIfNeeded roomy (crowded 101))) = map key_of [20..<101]
   \<and> map fst (getMetadata (cleanupIfNeeded roomy (crowded 101))) = map key_of [20..<101]
   \<and> expiresAt_meta (snd (key_of 19, \<lparr>expiresAt_meta = 19, size_meta = 64\<rparr>))
       \<le> expiresAt_meta (snd (key_of 20, \<lparr>expiresAt_meta = 20, size_meta = 64\<rparr>))"
proof -
  have big: "length (getMetadata (crowded 101)) > MAX_ENTRIES"
    by (simp add: crowded_length MAX_ENTRIES_def)
  have q: "\<forall>s md. quota_ok roomy s (WriteMetadata md)" by (simp add: roomy_def)
  have n: "(20::nat) \<le> 101" by simp
  have v: "(key_of 19, \<lparr>expiresAt_meta = 19, size_meta = 64\<rparr>)
              \<in> set (cleanup_entries (getMetadata (crowded 101)))"
    using crowded_entry_iff [OF n, of 19] by simp
  have r: "(key_of 20, \<lparr>expiresAt_meta = 20, size_meta = 64\<rparr>) \<in> set (getMetadata (crowded 101))"
    using crowded_record [of 20 101] by simp
  have nr: "(key_of 20, \<lparr>expiresAt_meta = 20, size_meta = 64\<rparr>)
              \<notin> set (cleanup_entries (getMetadata (crowded 101)))"
    using crowded_entry_iff [OF n, of 20] by simp
  note inst = cleanupIfNeeded_evicts_oldest [OF big, of roomy]
  from inst q
  have it: "items (cleanupIfNeeded roomy (crowded 101)) =
           filter (\<lambda>(k, item). k \<notin> set (map fst (cleanup_entries (getMetadata (crowded 101)))))
             (items (crowded 101))"
    and md: "getMetadata (cleanupIfNeeded roomy (crowded 101)) =
           filter (\<lambda>(k, meta). k \<notin> set (map fst (cleanup_entries (getMetadata (crowded 101)))))
             (getMetadata (crowded 101))"
    and len: "length (cleanup_entries (getMetadata (crowded 101))) = MAX_ENTRIES * 20 div 100"
    by blast+
  from inst v r nr
  have le: "expiresAt_meta (snd (key_of 19, \<lparr>expiresAt_meta = 19, size_meta = 64\<rparr>))
       \<le> expiresAt_meta (snd (key_of 20, \<lparr>expiresAt_meta = 20, size_meta = 64\<rparr>))"
    by blast
  have i2: "map fst (items (cleanupIfNeeded roomy (crowded 101))) = map key_of [20..<101]"
    unfolding it crowded_entry_keys [OF n] by (rule crowded_items_kept [OF n])
  have m2: "map fst (getMetadata (cleanupIfNeeded roomy (crowded 101))) = map key_of [20..<101]"
    unfolding md crowded_entry_keys [OF n] by (rule crowded_metadata_kept [OF n])
  have l2: "length (cleanup_entries (getMetadata (crowded 101))) = 20"
    using len by (simp add: MAX_ENTRIES_def)
  from big l2 i2 m2 le show ?thesis by blast
qed

text \<open>
  The claim as stated fails: with 105 keys tracked, 20% of them rounded down is 21, and
  \<open>_cleanupIfNeeded\<close> deletes 20; the record with the 21st oldest expiry keeps its
  entry.
\<close>

theorem cleanupIfNeeded_evicts_fixed_count:
  "MAX_ENTRIES < length (getMetadata (crowded 105))
   \<and> length (getMetadata (crowded 105)) * 20 div 100 = 21
   \<and> length (cleanup_entries (getMetadata (crowded 105))) = 20
   \<and> key_of 20 \<in> set (map fst (items (cleanupIfNeeded roomy (crowded 105))))"
proof -
  have big: "length (getMetadata (crowded 105)) > MAX_ENTRIES"
    by (simp add: crowded_length MAX_ENTRIES_def)
  have n: "(20::nat) \<le> 105" by simp
  have run: "items (cleanupIfNeeded roomy (crowded 105)) =
      filter (\<lambda>(k, item). k \<notin> set (map fst (cleanup_entries (getMetadata (crowded 105)))))
        (items (crowded 105))"
    using big by (simp add: cleanupIfNeeded_def Let_def fold_delete_items)
  have "map fst (items (cleanupIfNeeded roomy (crowded 105))) = map key_of [20..<105]"
    unfolding run crowded_entry_keys [OF n] by (rule crowded_items_kept [OF n])
  then have kept: "key_of 20 \<in> set (map fst (items (cleanupIfNeeded roomy (crowded 105))))"
    by (simp del: upt_rec_numeral)
  have len: "length (cleanup_entries (getMetadata (crowded 105))) = 20"
    by (simp add: cleanup_entries_def evict_count_20 crowded_length)
  have "length (getMetadata (crowded 105)) * 20 div 100 = 21"
    by (simp add: crowded_length)
  with big len kept show ?thesis by blast
qed

end
